theory Spec2Isabelle
  imports Main "HOL-Library.Word"
begin

section \<open>The tag index (server/tag.go)\<close>

text \<open>
  A \<open>*tag\<close> is a pointer: \<open>None\<close> is Go's \<open>nil\<close>, \<open>Some a\<close> points at the tag
  allocated at address \<open>a\<close>. The heap is the list of all tags allocated so far, a tag's
  address being its position; \<open>&tag{...}\<close> appends a cell. Go gives out no pointer to
  an unallocated tag, so every pointer met by the code is below \<open>length h\<close>; the
  theorems state this where they need it.
\<close>

type_synonym addr = nat

type_synonym ptr = "addr option"

record tag =
  prev :: ptr
  "next" :: ptr
  idx :: int

type_synonym heap = "tag list"

datatype fault = NilPointerDereference

definition set_prev :: "heap \<Rightarrow> addr \<Rightarrow> ptr \<Rightarrow> heap" where
  "set_prev h a p = h[a := (h ! a)\<lparr>prev := p\<rparr>]"

definition set_next :: "heap \<Rightarrow> addr \<Rightarrow> ptr \<Rightarrow> heap" where
  "set_next h a p = h[a := (h ! a)\<lparr>next := p\<rparr>]"

definition set_idx :: "heap \<Rightarrow> addr \<Rightarrow> int \<Rightarrow> heap" where
  "set_idx h a i = h[a := (h ! a)\<lparr>idx := i\<rparr>]"

text \<open>
  \<open>addTag\<close>: the tuple assignment \<open>head.next, t.next, t.prev = t, head.next, head\<close>
  reads its right-hand side first and then assigns from left to right.
\<close>

definition addTag :: "heap \<Rightarrow> ptr \<Rightarrow> int \<Rightarrow> ptr \<times> heap" where
  "addTag h head i =
     (let t = length h;
          h0 = h @ [\<lparr>prev = None, next = None, idx = i\<rparr>];
          h1 = (case head of
                  None \<Rightarrow> h0
                | Some a \<Rightarrow>
                    (let old_next = next (h0 ! a)
                     in set_prev (set_next (set_next h0 a (Some t)) t old_next) t (Some a)));
          h2 = (case next (h1 ! t) of
                  None \<Rightarrow> h1
                | Some n \<Rightarrow> set_prev h1 n (Some t))
      in (Some t, h2))"

text \<open>
  \<open>removeTag\<close> returns the flag and the heap after the call; on a nil argument the
  first field access faults.
\<close>

definition removeTag :: "heap \<Rightarrow> ptr \<Rightarrow> fault + (bool \<times> heap)" where
  "removeTag h p =
     (case p of
        None \<Rightarrow> Inl NilPointerDereference
      | Some t \<Rightarrow>
          (case prev (h ! t) of
             None \<Rightarrow>
               (case next (h ! t) of
                  None \<Rightarrow> Inr (True, h)
                | Some freeMe \<Rightarrow>
                    (let h1 = set_next (set_idx h t (idx (h ! freeMe))) t (next (h ! freeMe));
                         h2 = (case next (h1 ! t) of
                                 None \<Rightarrow> h1
                               | Some n \<Rightarrow> set_prev h1 n (Some t))
                     in Inr (False, set_next (set_prev h2 freeMe None) freeMe None)))
           | Some pr \<Rightarrow>
               (let h1 = set_next h pr (next (h ! t));
                    h2 = (case next (h1 ! t) of
                            None \<Rightarrow> h1
                          | Some n \<Rightarrow> set_prev h1 n (prev (h1 ! t)))
                in Inr (False, set_next (set_prev h2 t None) t None))))"

section \<open>The lexer (parser/lexer.go)\<close>

text \<open>
  The input is taken as the sequence of code points that \<open>utf8.DecodeRuneInString\<close>
  yields on it, one list element per rune, so positions and widths count runes. A rune
  is its code point.
\<close>

type_synonym rune = nat

definition rune :: "char \<Rightarrow> rune" where
  "rune c = of_char c"

definition runes :: "string \<Rightarrow> rune list" where
  "runes s = map rune s"

datatype tokenType =
    tokenTypeError
  | tokenTypeEOF
  | tokenTypeCmdHelp
  | tokenTypeCmdStatus
  | tokenTypeCmdStop
  | tokenTypeCmdStart
  | tokenTypeSqlCreate
  | tokenTypeSqlTable
  | tokenTypeSqlInsert
  | tokenTypeSqlInto
  | tokenTypeSqlUpdate
  | tokenTypeSqlDelete
  | tokenTypeSqlFrom
  | tokenTypeSqlSelect
  | tokenTypeSqlSubscribe
  | tokenTypeSqlUnsubscribe
  | tokenTypeSqlWhere
  | tokenTypeSqlStar
  | tokenTypeSqlEqual
  | tokenTypeSqlLeftParenthesis
  | tokenTypeSqlRightParenthesis
  | tokenTypeSqlComma
  | tokenTypeSqlId
  | tokenTypeSqlValue
  | tokenTypeSqlAnsiQuote
  | tokenTypeSqlString
  | tokenTypeWhiteSpace

record token =
  "typ" :: tokenType
  val :: "rune list"

text \<open>
  Go's standard library is not part of the repository. \<open>unicode.IsSpace\<close>,
  \<open>unicode.IsLetter\<close> and \<open>unicode.IsDigit\<close> decide the runes up to
  \<open>MaxLatin1\<close> by a fixed table, written out below, and look the others up in the
  range tables of the Unicode version at hand; these tables and \<open>fmt.Sprintf\<close> (called
  by \<open>errorToken\<close> on a format with no operands) are parameters of the model.
\<close>

record golib =
  White_Space :: "rune \<Rightarrow> bool"
  Letter :: "rune \<Rightarrow> bool"
  Digit :: "rune \<Rightarrow> bool"
  Sprintf :: "rune list \<Rightarrow> rune list"

definition MaxLatin1 :: rune where
  "MaxLatin1 = 255"

definition IsSpace :: "golib \<Rightarrow> rune \<Rightarrow> bool" where
  "IsSpace U r =
     (if r \<le> MaxLatin1
      then r = 9 \<or> r = 10 \<or> r = 11 \<or> r = 12 \<or> r = 13 \<or> r = 32 \<or> r = 133 \<or> r = 160
      else White_Space U r)"

definition IsLetter :: "golib \<Rightarrow> rune \<Rightarrow> bool" where
  "IsLetter U r =
     (if r \<le> MaxLatin1
      then (65 \<le> r \<and> r \<le> 90) \<or> (97 \<le> r \<and> r \<le> 122) \<or> r = 170 \<or> r = 181 \<or> r = 186
           \<or> (192 \<le> r \<and> r \<le> 214) \<or> (216 \<le> r \<and> r \<le> 246) \<or> (248 \<le> r \<and> r \<le> 255)
      else Letter U r)"

definition IsDigit :: "golib \<Rightarrow> rune \<Rightarrow> bool" where
  "IsDigit U r = (if r \<le> MaxLatin1 then 48 \<le> r \<and> r \<le> 57 else Digit U r)"

text \<open>
  The lexer state. The consumer is the list of the tokens it has been handed so far,
  oldest first.
\<close>

record lexer =
  input :: "rune list"
  start :: nat
  pos :: nat
  width :: nat
  tokens :: "token list"

text \<open>
  A \<open>stateFn\<close> is a pointer to one of the state functions; the pointer \<open>nil\<close> is
  \<open>None\<close>. Only these four functions are ever used as values.
\<close>

datatype stateFn =
    Fn_lexCommand
  | Fn_lexSqlInsertInto
  | Fn_lexSqlInsertIntoTable
  | Fn_lexSqlInsertIntoTableLeftParenthesis

definition Consume :: "token \<Rightarrow> lexer \<Rightarrow> lexer" where
  "Consume t l = l\<lparr>tokens := tokens l @ [t]\<rparr>"

definition errorToken :: "golib \<Rightarrow> rune list \<Rightarrow> lexer \<Rightarrow> stateFn option \<times> lexer" where
  "errorToken U format l = (None, Consume \<lparr>typ = tokenTypeError, val = Sprintf U format\<rparr> l)"

definition current :: "lexer \<Rightarrow> rune list \<times> lexer" where
  "current l = (take (pos l - start l) (drop (start l) (input l)), l\<lparr>start := pos l\<rparr>)"

definition emit :: "tokenType \<Rightarrow> lexer \<Rightarrow> lexer" where
  "emit t l = (case current l of (str, l') \<Rightarrow> Consume \<lparr>typ = t, val = str\<rparr> l')"

definition lexer_next :: "lexer \<Rightarrow> rune \<times> lexer" where
  "lexer_next l =
     (if pos l \<ge> length (input l) then (0, l\<lparr>width := 0\<rparr>)
      else (input l ! pos l, l\<lparr>width := 1, pos := pos l + 1\<rparr>))"

definition ignore :: "lexer \<Rightarrow> lexer" where
  "ignore l = l\<lparr>start := pos l\<rparr>"

definition backup :: "lexer \<Rightarrow> lexer" where
  "backup l = l\<lparr>pos := pos l - width l\<rparr>"

definition peek :: "lexer \<Rightarrow> rune \<times> lexer" where
  "peek l = (case lexer_next l of (r, l') \<Rightarrow> (r, backup l'))"

definition isWhiteSpace :: "golib \<Rightarrow> rune \<Rightarrow> bool" where
  "isWhiteSpace U r = (IsSpace U r \<or> r = 0)"

function scanTillWhiteSpace :: "golib \<Rightarrow> lexer \<Rightarrow> lexer" where
  "scanTillWhiteSpace U l =
     (case lexer_next l of (r, l') \<Rightarrow>
        if \<not> isWhiteSpace U r then scanTillWhiteSpace U l' else l')"
  by pat_completeness auto
termination
  by (relation "measure (\<lambda>(U, l). length (input l) - pos l)")
     (auto simp: lexer_next_def isWhiteSpace_def split: if_splits)

declare scanTillWhiteSpace.simps [simp del]

text \<open>
  \<open>match\<close>: the \<open>range\<close> loop runs over the whole of \<open>str\<close>, also after a
  mismatch; \<open>skip\<close> runes of \<open>str\<close> are passed over without reading the input.
\<close>

fun match_loop :: "rune list \<Rightarrow> nat \<Rightarrow> bool \<Rightarrow> lexer \<Rightarrow> bool \<times> lexer" where
  "match_loop [] skip done l = (done, l)"
| "match_loop (r # str) skip done l =
     (if skip > 0 then match_loop str (skip - 1) done l
      else (case lexer_next l of (c, l') \<Rightarrow>
              match_loop str skip (if r \<noteq> c then False else done) l'))"

definition match :: "golib \<Rightarrow> rune list \<Rightarrow> nat \<Rightarrow> lexer \<Rightarrow> bool \<times> lexer" where
  "match U str skip l =
     (case match_loop str skip True l of (done, l1) \<Rightarrow>
        (case peek l1 of (r, l2) \<Rightarrow>
           if False = isWhiteSpace U r then (False, scanTillWhiteSpace U l2)
           else (done, l2)))"

definition lexMatch ::
  "golib \<Rightarrow> tokenType \<Rightarrow> rune list \<Rightarrow> nat \<Rightarrow> stateFn option \<Rightarrow> lexer \<Rightarrow> stateFn option \<times> lexer"
where
  "lexMatch U ty command skip fn l =
     (case match U command skip l of (ok, l1) \<Rightarrow>
        if ok then (fn, emit ty l1)
        else (case current l1 of (str, l2) \<Rightarrow>
                errorToken U (runes ''Unexpected token:'' @ str) l2))"

text \<open>The statements after the \<open>switch\<close> of \<open>lexCommandST\<close> are never reached.\<close>

definition lexCommandST :: "golib \<Rightarrow> lexer \<Rightarrow> stateFn option \<times> lexer" where
  "lexCommandST U l =
     (case lexer_next l of (r, l1) \<Rightarrow>
        if r = rune CHR ''a'' then
          (case lexer_next l1 of (r2, l2) \<Rightarrow>
             if r2 = rune CHR ''r'' then lexMatch U tokenTypeCmdStart (runes ''start'') 4 None l2
             else lexMatch U tokenTypeCmdStatus (runes ''status'') 4 None l2)
        else lexMatch U tokenTypeCmdStop (runes ''stop'') 3 None l1)"

definition lexCommandS :: "golib \<Rightarrow> lexer \<Rightarrow> stateFn option \<times> lexer" where
  "lexCommandS U l =
     (case lexer_next l of (r, l1) \<Rightarrow>
        if r = rune CHR ''e'' then lexMatch U tokenTypeSqlSelect (runes ''select'') 2 None l1
        else if r = rune CHR ''u'' then
          lexMatch U tokenTypeSqlSubscribe (runes ''subscribe'') 2 None l1
        else if r = rune CHR ''t'' then lexCommandST U l1
        else (case current l1 of (str, l2) \<Rightarrow>
                errorToken U (runes ''Invalid command:'' @ str) l2))"

function lexSkipWhiteSpaces_loop :: "golib \<Rightarrow> lexer \<Rightarrow> lexer" where
  "lexSkipWhiteSpaces_loop U l =
     (case lexer_next l of (r, l') \<Rightarrow>
        if IsSpace U r then lexSkipWhiteSpaces_loop U l' else l')"
  by pat_completeness auto
termination
  by (relation "measure (\<lambda>(U, l). length (input l) - pos l)")
     (auto simp: lexer_next_def IsSpace_def MaxLatin1_def split: if_splits)

declare lexSkipWhiteSpaces_loop.simps [simp del]

definition lexSkipWhiteSpaces :: "golib \<Rightarrow> lexer \<Rightarrow> lexer" where
  "lexSkipWhiteSpaces U l = ignore (backup (lexSkipWhiteSpaces_loop U l))"

function lexSqlIdentifier_loop :: "golib \<Rightarrow> lexer \<Rightarrow> lexer" where
  "lexSqlIdentifier_loop U l =
     (case lexer_next l of (r, l') \<Rightarrow>
        if IsLetter U r \<or> IsDigit U r then lexSqlIdentifier_loop U l' else l')"
  by pat_completeness auto
termination
  by (relation "measure (\<lambda>(U, l). length (input l) - pos l)")
     (auto simp: lexer_next_def IsLetter_def IsDigit_def MaxLatin1_def split: if_splits)

declare lexSqlIdentifier_loop.simps [simp del]

definition lexSqlIdentifier ::
  "golib \<Rightarrow> tokenType \<Rightarrow> stateFn option \<Rightarrow> lexer \<Rightarrow> stateFn option \<times> lexer"
where
  "lexSqlIdentifier U ty fn l =
     (case lexer_next (lexSkipWhiteSpaces U l) of (r, l1) \<Rightarrow>
        if \<not> IsLetter U r then
          (case current l1 of (str, l2) \<Rightarrow>
             errorToken U (runes ''identifier must begin with a letter '' @ str) l2)
        else (fn, emit ty (backup (lexSqlIdentifier_loop U l1))))"

definition lexSqlLeftParenthesis ::
  "golib \<Rightarrow> stateFn option \<Rightarrow> lexer \<Rightarrow> stateFn option \<times> lexer"
where
  "lexSqlLeftParenthesis U fn l =
     (case lexer_next (lexSkipWhiteSpaces U l) of (r, l1) \<Rightarrow>
        if r \<noteq> rune CHR ''('' then errorToken U (runes ''expected ( '') l1
        else (fn, emit tokenTypeSqlLeftParenthesis l1))"

definition lexSqlInsertInto :: "golib \<Rightarrow> lexer \<Rightarrow> stateFn option \<times> lexer" where
  "lexSqlInsertInto U l =
     lexMatch U tokenTypeSqlInto (runes ''into'') 0 (Some Fn_lexSqlInsertIntoTable)
       (lexSkipWhiteSpaces U l)"

definition lexSqlInsertIntoTable :: "golib \<Rightarrow> lexer \<Rightarrow> stateFn option \<times> lexer" where
  "lexSqlInsertIntoTable U l =
     lexSqlIdentifier U tokenTypeSqlTable (Some Fn_lexSqlInsertIntoTableLeftParenthesis) l"

definition lexSqlInsertIntoTableLeftParenthesis ::
  "golib \<Rightarrow> lexer \<Rightarrow> stateFn option \<times> lexer"
where
  "lexSqlInsertIntoTableLeftParenthesis U l = lexSqlLeftParenthesis U None l"

definition lexCommand :: "golib \<Rightarrow> lexer \<Rightarrow> stateFn option \<times> lexer" where
  "lexCommand U l =
     (case lexer_next (lexSkipWhiteSpaces U l) of (r, l1) \<Rightarrow>
        if r = rune CHR ''u'' then
          (case lexer_next l1 of (r2, l2) \<Rightarrow>
             if r2 = rune CHR ''p'' then lexMatch U tokenTypeSqlUpdate (runes ''update'') 2 None l2
             else lexMatch U tokenTypeSqlUnsubscribe (runes ''unsubscribe'') 2 None l2)
        else if r = rune CHR ''s'' then lexCommandS U l1
        else if r = rune CHR ''i'' then
          lexMatch U tokenTypeSqlInsert (runes ''insert'') 1 (Some Fn_lexSqlInsertInto) l1
        else if r = rune CHR ''d'' then
          lexMatch U tokenTypeSqlDelete (runes ''delete'') 1 None l1
        else if r = rune CHR ''h'' then
          lexMatch U tokenTypeCmdHelp (runes ''help'') 1 None l1
        else (case current l1 of (str, l2) \<Rightarrow>
                errorToken U (runes ''Invalid command:'' @ str) l2))"

text \<open>Calling through a \<open>stateFn\<close> pointer.\<close>

fun call :: "golib \<Rightarrow> stateFn \<Rightarrow> lexer \<Rightarrow> stateFn option \<times> lexer" where
  "call U Fn_lexCommand l = lexCommand U l"
| "call U Fn_lexSqlInsertInto l = lexSqlInsertInto U l"
| "call U Fn_lexSqlInsertIntoTable l = lexSqlInsertIntoTable U l"
| "call U Fn_lexSqlInsertIntoTableLeftParenthesis l = lexSqlInsertIntoTableLeftParenthesis U l"

text \<open>
  \<open>run\<close> calls state functions until one returns nil. The loop ends because the state
  functions only ever hand on to a later one: \<open>state_rank\<close> falls at every call.
\<close>

fun state_rank :: "stateFn option \<Rightarrow> nat" where
  "state_rank None = 0"
| "state_rank (Some Fn_lexSqlInsertIntoTableLeftParenthesis) = 1"
| "state_rank (Some Fn_lexSqlInsertIntoTable) = 2"
| "state_rank (Some Fn_lexSqlInsertInto) = 3"
| "state_rank (Some Fn_lexCommand) = 4"

lemma fst_errorToken [simp]: "fst (errorToken U format l) = None"
  by (simp add: errorToken_def)

lemma fst_lexMatch: "fst (lexMatch U ty command skip fn l) = fn \<or> fst (lexMatch U ty command skip fn l) = None"
  by (simp add: lexMatch_def split: prod.splits)

lemma fst_lexCommandST [simp]: "fst (lexCommandST U l) = None"
  using fst_lexMatch [where fn = None]
  by (simp add: lexCommandST_def split: prod.splits)

lemma fst_lexCommandS [simp]: "fst (lexCommandS U l) = None"
  using fst_lexMatch [where fn = None]
  by (simp add: lexCommandS_def split: prod.splits)

lemma fst_lexCommand:
  "fst (lexCommand U l) = None \<or> fst (lexCommand U l) = Some Fn_lexSqlInsertInto"
  using fst_lexMatch [where fn = None] fst_lexMatch [where fn = "Some Fn_lexSqlInsertInto"]
  by (simp add: lexCommand_def split: prod.splits) blast

lemma fst_lexSqlIdentifier:
  "fst (lexSqlIdentifier U ty fn l) = fn \<or> fst (lexSqlIdentifier U ty fn l) = None"
  by (simp add: lexSqlIdentifier_def split: prod.splits)

lemma fst_lexSqlLeftParenthesis:
  "fst (lexSqlLeftParenthesis U fn l) = fn \<or> fst (lexSqlLeftParenthesis U fn l) = None"
  by (simp add: lexSqlLeftParenthesis_def split: prod.splits)

lemma state_rank_call: "state_rank (fst (call U f l)) < state_rank (Some f)"
proof (cases f)
  case Fn_lexCommand
  then show ?thesis using fst_lexCommand [of U l] by auto
next
  case Fn_lexSqlInsertInto
  then show ?thesis
    using fst_lexMatch [of U tokenTypeSqlInto "runes ''into''" 0 "Some Fn_lexSqlInsertIntoTable"
        "lexSkipWhiteSpaces U l"]
    by (auto simp: lexSqlInsertInto_def)
next
  case Fn_lexSqlInsertIntoTable
  then show ?thesis
    using fst_lexSqlIdentifier [of U tokenTypeSqlTable "Some Fn_lexSqlInsertIntoTableLeftParenthesis" l]
    by (auto simp: lexSqlInsertIntoTable_def)
next
  case Fn_lexSqlInsertIntoTableLeftParenthesis
  then show ?thesis
    using fst_lexSqlLeftParenthesis [of U None l]
    by (auto simp: lexSqlInsertIntoTableLeftParenthesis_def)
qed

function run_loop :: "golib \<Rightarrow> stateFn option \<Rightarrow> lexer \<Rightarrow> lexer" where
  "run_loop U state l =
     (case state of
        None \<Rightarrow> l
      | Some f \<Rightarrow> (case call U f l of (state', l') \<Rightarrow> run_loop U state' l'))"
  by pat_completeness auto
termination
proof (relation "measure (\<lambda>(U, state, l). state_rank state)", goal_cases)
  case 1
  show ?case by simp
next
  case prems: 2
  show ?case using prems state_rank_call by (metis (no_types, lifting) fst_conv in_measure case_prod_conv)
qed

declare run_loop.simps [simp del]

definition run :: "golib \<Rightarrow> lexer \<Rightarrow> lexer" where
  "run U l = emit tokenTypeEOF (run_loop U (Some Fn_lexCommand) l)"

definition lex :: "golib \<Rightarrow> rune list \<Rightarrow> token list" where
  "lex U inp = tokens (run U \<lparr>input = inp, start = 0, pos = 0, width = 0, tokens = []\<rparr>)"

section \<open>The bridge parser (server/parser_mysql.go)\<close>

text \<open>
  Modelled from the spec: the token vocabulary of package \<open>server\<close>, whose lexer is
  not among the sources. It is the vocabulary of the lexer above together with the bridge
  keywords that \<open>parseSqlMysql\<close> dispatches on.
\<close>

datatype tokenType_srv =
    Base tokenType
  | tokenTypeSqlMysql
  | tokenTypeSqlConnect
  | tokenTypeSqlDisconnect

record token_srv =
  typ_srv :: tokenType_srv
  val_srv :: string

text \<open>
  Modelled from the spec: the requests. \<open>request\<close> is an interface; a production
  returns one of the four bridge requests or the error request made by \<open>parseError\<close>
  (``a parse error carries a human-readable message; it is a value, not a thrown
  fault''). The embedded \<open>cmdRequest\<close> carries nothing that the bridge productions set.
\<close>

datatype request =
    mysqlConnectRequest string
  | mysqlDisconnectRequest
  | mysqlSubscribeRequest
  | mysqlUnsubscribeRequest
  | errorRequest string

text \<open>
  The parser holds the tokens that its source has yet to hand out.

  Modelled from the spec: \<open>Produce\<close> (``the parser requests one token at a time'' from
  the lexer's output, which ends with the end-of-input token; asked again after the
  last token it answers end-of-input).
\<close>

record parser =
  tokens_p :: "token_srv list"

definition Produce :: "parser \<Rightarrow> token_srv \<times> parser" where
  "Produce this =
     (case tokens_p this of
        [] \<Rightarrow> (\<lparr>typ_srv = Base tokenTypeEOF, val_srv = []\<rparr>, this)
      | tok # rest \<Rightarrow> (tok, this\<lparr>tokens_p := rest\<rparr>))"

text \<open>Modelled from the spec: \<open>parseError\<close> makes the error value out of its message.\<close>

definition parseError :: "string \<Rightarrow> parser \<Rightarrow> request \<times> parser" where
  "parseError s this = (errorRequest s, this)"

text \<open>
  Modelled from the spec: \<open>parseEOF\<close>, the shared helper that ends every production
  (``pulling one more token and failing unless it is the end-of-input token''). The
  parameter \<open>S\<close> is the \<open>String\<close> method of the token kinds of package \<open>server\<close>.
\<close>

definition parseEOF ::
  "(tokenType_srv \<Rightarrow> string) \<Rightarrow> request \<Rightarrow> parser \<Rightarrow> request \<times> parser"
where
  "parseEOF S req this =
     (case Produce this of (tok, this') \<Rightarrow>
        if typ_srv tok = Base tokenTypeEOF then (req, this')
        else parseError (''expected EOF, but got: '' @ S (typ_srv tok)) this')"

text \<open>
  \<open>parseConnectionAddress\<close> writes through its pointer argument: the model takes the
  string stored there and returns the string stored there afterwards, next to the
  returned request (\<open>None\<close> is the nil interface value).
\<close>

definition parseConnectionAddress ::
  "(tokenType_srv \<Rightarrow> string) \<Rightarrow> string \<Rightarrow> parser \<Rightarrow> (request option \<times> string) \<times> parser"
where
  "parseConnectionAddress S connectionAddress this =
     (case Produce this of (tok, this1) \<Rightarrow>
        if typ_srv tok \<noteq> Base tokenTypeSqlValue then
          (case parseError (''expected connection address, but got: '' @ S (typ_srv tok)) this1 of
             (err, this2) \<Rightarrow> ((Some err, connectionAddress), this2))
        else ((None, val_srv tok), this1))"

definition parseMysqlConnect ::
  "(tokenType_srv \<Rightarrow> string) \<Rightarrow> parser \<Rightarrow> request \<times> parser"
where
  "parseMysqlConnect S this =
     (case parseConnectionAddress S [] this of
        ((Some errReq, _), this1) \<Rightarrow> (errReq, this1)
      | ((None, connectionAddress), this1) \<Rightarrow>
          parseEOF S (mysqlConnectRequest connectionAddress) this1)"

definition parseMysqlDisconnect ::
  "(tokenType_srv \<Rightarrow> string) \<Rightarrow> parser \<Rightarrow> request \<times> parser"
where
  "parseMysqlDisconnect S this = parseEOF S mysqlDisconnectRequest this"

definition parseMysqlSubscribe ::
  "(tokenType_srv \<Rightarrow> string) \<Rightarrow> parser \<Rightarrow> request \<times> parser"
where
  "parseMysqlSubscribe S this = parseEOF S mysqlSubscribeRequest this"

definition parseMysqlUnsubscribe ::
  "(tokenType_srv \<Rightarrow> string) \<Rightarrow> parser \<Rightarrow> request \<times> parser"
where
  "parseMysqlUnsubscribe S this = parseEOF S mysqlUnsubscribeRequest this"

definition parseSqlMysql ::
  "(tokenType_srv \<Rightarrow> string) \<Rightarrow> parser \<Rightarrow> request \<times> parser"
where
  "parseSqlMysql S this =
     (case Produce this of (tok, this1) \<Rightarrow>
        if typ_srv tok = tokenTypeSqlConnect then parseMysqlConnect S this1
        else if typ_srv tok = tokenTypeSqlDisconnect then parseMysqlDisconnect S this1
        else if typ_srv tok = Base tokenTypeSqlSubscribe then parseMysqlSubscribe S this1
        else if typ_srv tok = Base tokenTypeSqlUnsubscribe then parseMysqlUnsubscribe S this1
        else parseError ''invalid mysql request'' this1)"

section \<open>The client (client/client.go)\<close>

text \<open>
  \<open>NetworkHeader\<close> and \<open>NetMessageReaderWriter\<close> are declared outside the sources at
  hand. Of the header only the field that \<open>Execute\<close> reads is kept. The reader-writer
  stands for the network, so what its methods answer is an input of the model: \<open>Valid\<close>,
  the error of \<open>WriteHeaderAndMessage\<close> and the triple of \<open>ReadMessage\<close>, an error
  being its message (\<open>err.Error()\<close>) and \<open>None\<close> the nil error or nil pointer.
\<close>

record NetworkHeader =
  RequestId :: "32 word"

record NetMessageReaderWriter =
  Valid :: bool
  WriteHeaderAndMessage :: "string option"
  ReadMessage :: "NetworkHeader option \<times> string \<times> string option"

record client =
  rw :: NetMessageReaderWriter
  requestId :: "32 word"
  errorString :: string
  rawjson :: string

definition resetError :: "client \<Rightarrow> client" where
  "resetError this = this\<lparr>errorString := []\<rparr>"

definition reset :: "client \<Rightarrow> client" where
  "reset this = (resetError this)\<lparr>rawjson := []\<rparr>"

definition setError :: "string \<Rightarrow> client \<Rightarrow> client" where
  "setError err this = this\<lparr>errorString := err\<rparr>"

definition client_write :: "string \<Rightarrow> client \<Rightarrow> bool \<times> client" where
  "client_write message this =
     (let this1 = resetError (this\<lparr>requestId := requestId this + 1\<rparr>)
      in if Valid (rw this1) then
           (case WriteHeaderAndMessage (rw this1) of
              None \<Rightarrow> (True, this1)
            | Some err \<Rightarrow> (False, setError err this1))
         else (False, this1\<lparr>errorString := ''Not connected''\<rparr>))"

definition client_read :: "client \<Rightarrow> (NetworkHeader option \<times> string \<times> bool) \<times> client" where
  "client_read this =
     (let this1 = reset this
      in if Valid (rw this1) then
           (case ReadMessage (rw this1) of
              (header, bytes, None) \<Rightarrow> ((header, bytes, True), this1)
            | (header, bytes, Some err) \<Rightarrow> ((None, [], False), setError err this1))
         else ((None, [], False), this1\<lparr>errorString := ''Not connected''\<rparr>))"

text \<open>
  \<open>Execute\<close> reads \<open>header.RequestId\<close> right after \<open>read\<close> returns: through a nil
  \<open>header\<close> that is a run-time panic, the \<open>Inl\<close> result.
\<close>

definition Execute :: "string \<Rightarrow> client \<Rightarrow> fault + (bool \<times> client)" where
  "Execute command this =
     (case client_write command this of (ok, this1) \<Rightarrow>
        if ok then
          (case client_read this1 of ((header, bytes, ok2), this2) \<Rightarrow>
             (case header of
                None \<Rightarrow> Inl NilPointerDereference
              | Some hdr \<Rightarrow>
                  (case (if RequestId hdr \<noteq> requestId this2
                         then (False, this2\<lparr>errorString := ''invalid requestId''\<rparr>)
                         else (ok2, this2)) of
                     (ok3, this3) \<Rightarrow>
                       if ok3 then Inr (ok3, this3\<lparr>rawjson := bytes\<rparr>) else Inr (ok3, this3))))
        else Inr (ok, this1))"

section \<open>The owner of a tag list\<close>

text \<open>
  Walking the next links from a pointer: the tags met, in order, when nil is reached
  within \<open>n\<close> steps, and \<open>None\<close> when it is not. A heap of \<open>length h\<close> tags
  holds no nil-ended chain longer than that, so with this fuel \<open>None\<close> means that the
  links run into a cycle.
\<close>

fun walk :: "heap \<Rightarrow> nat \<Rightarrow> ptr \<Rightarrow> addr list option" where
  "walk h n None = Some []"
| "walk h 0 (Some a) = None"
| "walk h (Suc n) (Some a) = map_option ((#) a) (walk h n (next (h ! a)))"

text \<open>The pointer at the first tag of a list of tags, nil for the empty list.\<close>

definition first_ptr :: "addr list \<Rightarrow> ptr" where
  "first_ptr as = (case as of [] \<Rightarrow> None | a # _ \<Rightarrow> Some a)"

text \<open>
  A well-linked segment: the tags \<open>as\<close> are allocated and chained by their next
  links up to nil, and each prev link points at the tag before, the first at \<open>p\<close>.
\<close>

fun dll :: "heap \<Rightarrow> ptr \<Rightarrow> addr list \<Rightarrow> bool" where
  "dll h p [] = True"
| "dll h p (a # as) =
     (a < length h \<and> prev (h ! a) = p \<and> next (h ! a) = first_ptr as \<and> dll h (Some a) as)"

text \<open>
  The owner of a list (the column's tag map in the comment of \<open>removeTag\<close>) holds the
  head pointer. \<open>held\<close> records the indices added and not yet removed: \<open>addTag\<close>
  adds its index, \<open>removeTag\<close> takes away the index that the removed tag stands for
  at the time of the call.
\<close>

datatype op = AddTag int | RemoveTag addr

record owner =
  heap :: heap
  head :: ptr
  held :: "int list"

text \<open>
  The tags, and the indices, met by walking the next links from the head.
\<close>

definition reachable :: "owner \<Rightarrow> addr list option" where
  "reachable s = walk (heap s) (length (heap s)) (head s)"

definition reachable_idx :: "owner \<Rightarrow> int list option" where
  "reachable_idx s = map_option (map (\<lambda>a. idx (heap s ! a))) (reachable s)"

text \<open>
  The caller that \<open>tag.go\<close> is written for: \<open>addTag\<close> ``adds tag as next element
  after the head'', so the head stays where it is, and the returned tag becomes the head
  only of a list that was empty; when \<open>removeTag\<close> returns true the caller clears its
  head.
\<close>

fun apply_op :: "owner \<Rightarrow> op \<Rightarrow> fault + owner" where
  "apply_op s (AddTag i) =
     (case addTag (heap s) (head s) i of
        (t, h') \<Rightarrow> Inr \<lparr>heap = h', head = (if head s = None then t else head s), held = i # held s\<rparr>)"
| "apply_op s (RemoveTag a) =
     (case removeTag (heap s) (Some a) of
        Inl f \<Rightarrow> Inl f
      | Inr (emptied, h') \<Rightarrow>
          Inr \<lparr>heap = h', head = (if emptied then None else head s),
               held = remove1 (idx (heap s ! a)) (held s)\<rparr>)"

text \<open>
  Modelled from the spec: the caller of its section 4.3, which takes the tag returned by
  \<open>addTag\<close> as its new head every time (``returns the newly inserted tag, which
  callers use as their new head'').
\<close>

fun apply_op_new_head :: "owner \<Rightarrow> op \<Rightarrow> fault + owner" where
  "apply_op_new_head s (AddTag i) =
     (case addTag (heap s) (head s) i of
        (t, h') \<Rightarrow> Inr \<lparr>heap = h', head = t, held = i # held s\<rparr>)"
| "apply_op_new_head s (RemoveTag a) = apply_op s (RemoveTag a)"

fun exec_ops :: "(owner \<Rightarrow> op \<Rightarrow> fault + owner) \<Rightarrow> owner \<Rightarrow> op list \<Rightarrow> fault + owner" where
  "exec_ops step s [] = Inr s"
| "exec_ops step s (x # xs) =
     (case step s x of Inl f \<Rightarrow> Inl f | Inr s' \<Rightarrow> exec_ops step s' xs)"

text \<open>
  The sequences the invariant is about: \<open>removeTag\<close> is applied only to a tag linked
  in the list, and an index is added only when the list does not hold it.
\<close>

definition admissible_op :: "owner \<Rightarrow> op \<Rightarrow> bool" where
  "admissible_op s x =
     (case x of
        AddTag i \<Rightarrow> i \<notin> set (held s)
      | RemoveTag a \<Rightarrow> (case reachable s of None \<Rightarrow> False | Some as \<Rightarrow> a \<in> set as))"

fun admissible :: "owner \<Rightarrow> op list \<Rightarrow> bool" where
  "admissible s [] = True"
| "admissible s (x # xs) =
     (admissible_op s x \<and> (case apply_op s x of Inl f \<Rightarrow> False | Inr s' \<Rightarrow> admissible s' xs))"

text \<open>
  The caller of head stability: \<open>k\<close> calls of \<open>removeTag\<close>, each on the same
  pointer \<open>a\<close> that the caller holds as its head, with the flags returned.
\<close>

fun drain :: "heap \<Rightarrow> addr \<Rightarrow> nat \<Rightarrow> fault + (bool list \<times> heap)" where
  "drain h a 0 = Inr ([], h)"
| "drain h a (Suc k) =
     (case removeTag h (Some a) of
        Inl f \<Rightarrow> Inl f
      | Inr (emptied, h') \<Rightarrow>
          (case drain h' a k of
             Inl f \<Rightarrow> Inl f
           | Inr (flags, h'') \<Rightarrow> Inr (emptied # flags, h'')))"

text \<open>The invariant of the owner's state, with the list of linked tags \<open>as\<close>.\<close>

definition list_inv :: "owner \<Rightarrow> addr list \<Rightarrow> bool" where
  "list_inv s as =
     (dll (heap s) None as \<and> distinct as \<and> head s = first_ptr as \<and> distinct (held s) \<and>
      set (map (\<lambda>a. idx (heap s ! a)) as) = set (held s) \<and>
      distinct (map (\<lambda>a. idx (heap s ! a)) as))"

section \<open>Notions used in the statements\<close>

text \<open>A pointer is valid in a heap when it is nil or points at an allocated tag.\<close>

definition valid_ptr :: "heap \<Rightarrow> ptr \<Rightarrow> bool" where
  "valid_ptr h p = (case p of None \<Rightarrow> True | Some a \<Rightarrow> a < length h)"

text \<open>
  A library instance for the closed examples: no rune beyond Latin-1 is in a table, and
  \<open>Sprintf\<close> returns its format, as \<open>fmt.Sprintf\<close> does on a format without a
  percent sign.
\<close>

definition latin1_lib :: golib where
  "latin1_lib =
     \<lparr>White_Space = (\<lambda>_. False), Letter = (\<lambda>_. False), Digit = (\<lambda>_. False),
      Sprintf = (\<lambda>format. format)\<rparr>"

text \<open>
  The keywords of the token vocabulary, as the comments of the \<open>tokenType\<close> constants
  spell them.
\<close>

definition command_words :: "string list" where
  "command_words =
     [''help'', ''status'', ''stop'', ''start'', ''create'', ''table'', ''insert'', ''into'',
      ''update'', ''delete'', ''from'', ''select'', ''subscribe'', ''unsubscribe'', ''where'']"

text \<open>How many tokens of a kind the consumer has received.\<close>

definition count_typ :: "tokenType \<Rightarrow> token list \<Rightarrow> nat" where
  "count_typ k ts = length (filter (\<lambda>t. typ t = k) ts)"

text \<open>
  What one call of a state function hands to the consumer: one token, never the
  end-of-input token, and an error token only together with the nil state.
\<close>

definition one_token :: "lexer \<Rightarrow> stateFn option \<times> lexer \<Rightarrow> bool" where
  "one_token l res =
     (\<exists>t. tokens (snd res) = tokens l @ [t] \<and> typ t \<noteq> tokenTypeEOF \<and>
          (typ t = tokenTypeError \<longrightarrow> fst res = None))"

text \<open>
  The cursor of the lexer. \<open>lexer_ok\<close>: the pending lexeme \<open>input[start:pos]\<close> is a
  slice of the input. \<open>lexer_ok_next\<close>: moreover the last rune read lies within it, so
  that \<open>backup\<close> may step back over it.
\<close>

definition lexer_ok :: "lexer \<Rightarrow> bool" where
  "lexer_ok l = (start l \<le> pos l \<and> pos l \<le> length (input l))"

definition lexer_ok_next :: "lexer \<Rightarrow> bool" where
  "lexer_ok_next l = (start l + width l \<le> pos l \<and> pos l \<le> length (input l))"

section \<open>Properties of the tag index\<close>

text \<open>
  C9. A tag with neither predecessor nor successor: \<open>removeTag\<close> returns true and
  leaves the heap as it was, so no field of the tag (nor of any other tag) changes.
\<close>

theorem removeTag_single_no_mutation:
  "prev (h ! t) = None \<Longrightarrow> next (h ! t) = None \<Longrightarrow> removeTag h (Some t) = Inr (True, h)"
  by (simp add: removeTag_def)

theorem removeTag_single_no_mutation_witness:
  "prev ([\<lparr>prev = None, next = None, idx = 7\<rparr>] ! 0) = None \<and>
   next ([\<lparr>prev = None, next = None, idx = 7\<rparr>] ! 0) = None \<and>
   removeTag [\<lparr>prev = None, next = None, idx = 7\<rparr>] (Some 0)
     = Inr (True, [\<lparr>prev = None, next = None, idx = 7\<rparr>])"
  using removeTag_single_no_mutation [of "[\<lparr>prev = None, next = None, idx = 7\<rparr>]" 0]
  by simp

text \<open>
  C3. \<open>addTag\<close> allocates a tag carrying the index and returns it. Under a nil head
  the new tag stands alone and nothing else changes. Under a head \<open>a\<close> the new tag's
  next is the old next of \<open>a\<close>, its prev is \<open>a\<close>, the next of \<open>a\<close> is the new tag,
  and the old next of \<open>a\<close>, when there was one, has the new tag as its prev.
\<close>

theorem addTag_splice:
  assumes "valid_ptr h p"
    and "\<forall>a. p = Some a \<longrightarrow> valid_ptr h (next (h ! a))"
  shows "fst (addTag h p i) = Some (length h) \<and>
         length (snd (addTag h p i)) = Suc (length h) \<and>
         idx (snd (addTag h p i) ! length h) = i \<and>
         (case p of
            None \<Rightarrow> snd (addTag h p i) = h @ [\<lparr>prev = None, next = None, idx = i\<rparr>]
          | Some a \<Rightarrow>
              next (snd (addTag h p i) ! length h) = next (h ! a) \<and>
              prev (snd (addTag h p i) ! length h) = Some a \<and>
              next (snd (addTag h p i) ! a) = Some (length h) \<and>
              (\<forall>n. next (h ! a) = Some n \<longrightarrow>
                   prev (snd (addTag h p i) ! n) = Some (length h)))"
  using assms
  by (auto simp: addTag_def valid_ptr_def set_prev_def set_next_def Let_def nth_append
      nth_list_update split: option.splits)

theorem addTag_splice_witness:
  "valid_ptr [\<lparr>prev = None, next = Some 1, idx = 1\<rparr>, \<lparr>prev = Some 0, next = None, idx = 2\<rparr>] (Some 0) \<and>
   fst (addTag [\<lparr>prev = None, next = Some 1, idx = 1\<rparr>, \<lparr>prev = Some 0, next = None, idx = 2\<rparr>]
          (Some 0) 3) = Some 2 \<and>
   next (snd (addTag [\<lparr>prev = None, next = Some 1, idx = 1\<rparr>, \<lparr>prev = Some 0, next = None, idx = 2\<rparr>]
          (Some 0) 3) ! 2) = Some 1 \<and>
   prev (snd (addTag [\<lparr>prev = None, next = Some 1, idx = 1\<rparr>, \<lparr>prev = Some 0, next = None, idx = 2\<rparr>]
          (Some 0) 3) ! 2) = Some 0 \<and>
   next (snd (addTag [\<lparr>prev = None, next = Some 1, idx = 1\<rparr>, \<lparr>prev = Some 0, next = None, idx = 2\<rparr>]
          (Some 0) 3) ! 0) = Some 2 \<and>
   prev (snd (addTag [\<lparr>prev = None, next = Some 1, idx = 1\<rparr>, \<lparr>prev = Some 0, next = None, idx = 2\<rparr>]
          (Some 0) 3) ! 1) = Some 2"
proof -
  let ?h = "[\<lparr>prev = None, next = Some 1, idx = 1\<rparr>, \<lparr>prev = Some 0, next = None, idx = 2\<rparr>]"
  have len: "length ?h = 2" by simp
  have v1: "valid_ptr ?h (Some 0)" by (simp add: valid_ptr_def)
  have v2: "\<forall>a. Some (0::nat) = Some a \<longrightarrow> valid_ptr ?h (next (?h ! a))" by (simp add: valid_ptr_def)
  have n: "next (?h ! 0) = Some 1" by simp
  from addTag_splice [OF v1 v2, of 3] show ?thesis
    unfolding len using v1 n by simp
qed

subsection \<open>Well-linked lists\<close>

lemma first_ptr_simps [simp]: "first_ptr [] = None" "first_ptr (a # as) = Some a"
  by (simp_all add: first_ptr_def)

lemma dll_in_range: "dll h p as \<Longrightarrow> a \<in> set as \<Longrightarrow> a < length h"
  by (induction as arbitrary: p) auto

lemma dll_frame:
  assumes "dll h p as" and "\<forall>a\<in>set as. h' ! a = h ! a" and "length h \<le> length h'"
  shows "dll h' p as"
  using assms by (induction as arbitrary: p) auto

lemma walk_dll:
  "dll h p as \<Longrightarrow> length as \<le> n \<Longrightarrow> walk h n (first_ptr as) = Some as"
proof (induction as arbitrary: p n)
  case Nil
  then show ?case by simp
next
  case (Cons a as)
  then obtain m where n: "n = Suc m" by (cases n) auto
  with Cons.prems Cons.IH [of "Some a" m] show ?case by simp
qed

lemma distinct_length_le:
  assumes "distinct as" and "\<forall>a\<in>set as. a < n"
  shows "length as \<le> n"
proof -
  have "card (set as) \<le> card {..<n}"
    using assms(2) by (intro card_mono) auto
  then show ?thesis using assms(1) by (simp add: distinct_card)
qed

lemma walk_dll_heap:
  assumes "dll h p as" and "distinct as"
  shows "walk h (length h) (first_ptr as) = Some as"
proof -
  have "length as \<le> length h"
    using assms dll_in_range [OF assms(1)] by (intro distinct_length_le) auto
  then show ?thesis using assms(1) by (rule walk_dll [rotated])
qed

subsection \<open>addTag on a list\<close>

lemma addTag_nil:
  "addTag h None i = (Some (length h), h @ [\<lparr>prev = None, next = None, idx = i\<rparr>])"
  by (simp add: addTag_def)

lemma addTag_last:
  assumes "a < length h" and "next (h ! a) = None"
  shows "addTag h (Some a) i =
           (Some (length h),
            h[a := (h ! a)\<lparr>next := Some (length h)\<rparr>] @ [\<lparr>prev = Some a, next = None, idx = i\<rparr>])"
  using assms
  by (simp add: addTag_def set_prev_def set_next_def nth_append list_update_append Let_def)

lemma addTag_mid:
  assumes "a < length h" and "next (h ! a) = Some b" and "b < length h" and "a \<noteq> b"
  shows "addTag h (Some a) i =
           (Some (length h),
            h[a := (h ! a)\<lparr>next := Some (length h)\<rparr>, b := (h ! b)\<lparr>prev := Some (length h)\<rparr>]
              @ [\<lparr>prev = Some a, next = Some b, idx = i\<rparr>])"
  using assms
  by (simp add: addTag_def set_prev_def set_next_def nth_append list_update_append Let_def)

lemma addTag_head:
  assumes "dll h None (a # as)" and "distinct (a # as)"
  shows "\<exists>h'. addTag h (Some a) i = (Some (length h), h') \<and> length h' = Suc (length h) \<and>
           dll h' None (a # length h # as) \<and> idx (h' ! length h) = i \<and>
           (\<forall>b<length h. idx (h' ! b) = idx (h ! b))"
proof (cases as)
  case Nil
  then have r: "a < length h" "next (h ! a) = None" using assms by auto
  let ?h' = "h[a := (h ! a)\<lparr>next := Some (length h)\<rparr>] @ [\<lparr>prev = Some a, next = None, idx = i\<rparr>]"
  have eq: "addTag h (Some a) i = (Some (length h), ?h')" by (rule addTag_last [OF r])
  have len: "length ?h' = Suc (length h)" by simp
  have d: "dll ?h' None (a # length h # as)"
    using assms Nil r by (simp add: nth_append)
  have ix: "idx (?h' ! length h) = i" by (simp add: nth_append)
  have fr: "\<forall>b<length h. idx (?h' ! b) = idx (h ! b)"
    using r by (simp add: nth_append nth_list_update)
  show ?thesis by (intro exI [of _ ?h'] conjI) (fact eq len d ix fr)+
next
  case (Cons b bs)
  then have r: "a < length h" "next (h ! a) = Some b" "b < length h" "a \<noteq> b"
    using assms by auto
  let ?h' = "h[a := (h ! a)\<lparr>next := Some (length h)\<rparr>, b := (h ! b)\<lparr>prev := Some (length h)\<rparr>]
              @ [\<lparr>prev = Some a, next = Some b, idx = i\<rparr>]"
  have eq: "addTag h (Some a) i = (Some (length h), ?h')" by (rule addTag_mid [OF r])
  have len: "length ?h' = Suc (length h)" by simp
  have old: "dll h (Some b) bs" "next (h ! b) = first_ptr bs" "prev (h ! a) = None"
    using assms Cons by simp_all
  have "dll ?h' (Some b) bs" using old(1)
  proof (rule dll_frame)
    show "\<forall>c\<in>set bs. ?h' ! c = h ! c"
      using assms Cons dll_in_range [OF old(1)]
      by (auto simp: nth_append nth_list_update)
  qed simp
  then have d: "dll ?h' None (a # length h # as)"
    using Cons r old by (simp add: nth_append nth_list_update)
  have ix: "idx (?h' ! length h) = i" by (simp add: nth_append)
  have fr: "\<forall>c<length h. idx (?h' ! c) = idx (h ! c)"
    using r by (simp add: nth_append nth_list_update)
  show ?thesis by (intro exI [of _ ?h'] conjI) (fact eq len d ix fr)+
qed

subsection \<open>removeTag on a list\<close>

lemma length_set [simp]:
  "length (set_prev h a p) = length h" "length (set_next h a p) = length h"
  "length (set_idx h a i) = length h"
  by (simp_all add: set_prev_def set_next_def set_idx_def)

lemma nth_set_prev:
  "set_prev h a p ! b = (if b = a \<and> a < length h then (h ! a)\<lparr>prev := p\<rparr> else h ! b)"
  by (auto simp: set_prev_def list_update_beyond)

lemma nth_set_next:
  "set_next h a p ! b = (if b = a \<and> a < length h then (h ! a)\<lparr>next := p\<rparr> else h ! b)"
  by (auto simp: set_next_def list_update_beyond)

lemma nth_set_idx:
  "set_idx h a i ! b = (if b = a \<and> a < length h then (h ! a)\<lparr>idx := i\<rparr> else h ! b)"
  by (auto simp: set_idx_def list_update_beyond)

lemmas nth_set = nth_set_prev nth_set_next nth_set_idx

lemma removeTag_only:
  assumes "dll h None [x]"
  shows "removeTag h (Some x) = Inr (True, h)"
  using assms by (simp add: removeTag_def)

lemma removeTag_slide:
  assumes "dll h None (x # b # bs)" and "distinct (x # b # bs)"
  shows "\<exists>h'. removeTag h (Some x) = Inr (False, h') \<and> length h' = length h \<and>
           dll h' None (x # bs) \<and> idx (h' ! x) = idx (h ! b) \<and>
           (\<forall>c. c \<noteq> x \<longrightarrow> idx (h' ! c) = idx (h ! c))"
proof -
  have r: "x < length h" "b < length h" "x \<noteq> b" "x \<notin> set bs" "b \<notin> set bs"
    "prev (h ! x) = None" "next (h ! x) = Some b" "next (h ! b) = first_ptr bs"
    "dll h (Some b) bs"
    using assms by auto
  let ?h1 = "set_next (set_idx h x (idx (h ! b))) x (next (h ! b))"
  let ?h2 = "case next (?h1 ! x) of None \<Rightarrow> ?h1 | Some n \<Rightarrow> set_prev ?h1 n (Some x)"
  let ?h' = "set_next (set_prev ?h2 b None) b None"
  have eq: "removeTag h (Some x) = Inr (False, ?h')"
    using r(6,7) by (simp add: removeTag_def Let_def)
  have len: "length ?h' = length h" by (simp split: option.splits)
  have d: "dll ?h' None (x # bs)"
  proof (cases bs)
    case Nil
    then show ?thesis using r by (simp add: nth_set)
  next
    case (Cons c cs)
    then have c: "c < length h" "c \<noteq> x" "c \<noteq> b" "c \<notin> set cs" "prev (h ! c) = Some b"
      "next (h ! c) = first_ptr cs" "dll h (Some c) cs"
      using assms by auto
    have "dll ?h' (Some c) cs" using c(7)
    proof (rule dll_frame)
      show "\<forall>a\<in>set cs. ?h' ! a = h ! a"
        using r c Cons by (auto simp: nth_set)
    qed (simp split: option.splits)
    then show ?thesis using r c Cons by (simp add: nth_set)
  qed
  have ix: "idx (?h' ! x) = idx (h ! b)"
    using r by (simp add: nth_set split: option.splits)
  have fr: "\<forall>c. c \<noteq> x \<longrightarrow> idx (?h' ! c) = idx (h ! c)"
    using r by (simp add: nth_set split: option.splits)
  show ?thesis by (intro exI [of _ ?h'] conjI) (fact eq len d ix fr)+
qed

text \<open>Removing the tag right after \<open>p\<close>.\<close>

lemma removeTag_after:
  assumes "dll h q (p # x # ys)" and "distinct (p # x # ys)"
  shows "\<exists>h'. removeTag h (Some x) = Inr (False, h') \<and> length h' = length h \<and>
           dll h' q (p # ys) \<and> (\<forall>c. idx (h' ! c) = idx (h ! c)) \<and>
           (\<forall>c. c \<notin> set (p # x # ys) \<longrightarrow> h' ! c = h ! c)"
proof -
  have r: "p < length h" "x < length h" "p \<noteq> x" "p \<notin> set ys" "x \<notin> set ys"
    "prev (h ! p) = q" "next (h ! p) = Some x" "prev (h ! x) = Some p"
    "next (h ! x) = first_ptr ys" "dll h (Some x) ys"
    using assms by auto
  let ?h1 = "set_next h p (next (h ! x))"
  let ?h2 = "case next (?h1 ! x) of None \<Rightarrow> ?h1 | Some n \<Rightarrow> set_prev ?h1 n (prev (?h1 ! x))"
  let ?h' = "set_next (set_prev ?h2 x None) x None"
  have eq: "removeTag h (Some x) = Inr (False, ?h')"
    using r(8) by (simp add: removeTag_def Let_def)
  have len: "length ?h' = length h" by (simp split: option.splits)
  have d: "dll ?h' q (p # ys)"
  proof (cases ys)
    case Nil
    then show ?thesis using r by (simp add: nth_set)
  next
    case (Cons c cs)
    then have c: "c < length h" "c \<noteq> x" "c \<noteq> p" "c \<notin> set cs" "prev (h ! c) = Some x"
      "next (h ! c) = first_ptr cs" "dll h (Some c) cs"
      using assms by auto
    have "dll ?h' (Some c) cs" using c(7)
    proof (rule dll_frame)
      show "\<forall>a\<in>set cs. ?h' ! a = h ! a"
        using r c Cons by (auto simp: nth_set)
    qed (simp split: option.splits)
    then show ?thesis using r c Cons by (simp add: nth_set)
  qed
  have ix: "\<forall>c. idx (?h' ! c) = idx (h ! c)"
    using r by (simp add: nth_set split: option.splits)
  have fr: "\<forall>c. c \<notin> set (p # x # ys) \<longrightarrow> ?h' ! c = h ! c"
    using r by (cases ys) (auto simp: nth_set)
  show ?thesis by (intro exI [of _ ?h'] conjI) (fact eq len d ix fr)+
qed

text \<open>Removing any tag that has a predecessor in the list.\<close>

lemma removeTag_inner:
  assumes "dll h q (p # as)" and "distinct (p # as)" and "x \<in> set as"
  shows "\<exists>h'. removeTag h (Some x) = Inr (False, h') \<and> length h' = length h \<and>
           dll h' q (p # remove1 x as) \<and> (\<forall>c. idx (h' ! c) = idx (h ! c)) \<and>
           (\<forall>c. c \<notin> set (p # as) \<longrightarrow> h' ! c = h ! c)"
  using assms
proof (induction as arbitrary: p q)
  case Nil
  then show ?case by simp
next
  case (Cons y ys)
  show ?case
  proof (cases "x = y")
    case True
    with removeTag_after [of h q p x ys] Cons.prems show ?thesis by simp
  next
    case False
    then have x: "x \<in> set ys" using Cons.prems by simp
    have seg: "dll h (Some p) (y # ys)" "distinct (y # ys)" using Cons.prems by simp_all
    from Cons.IH [OF seg x] obtain h' where
      h': "removeTag h (Some x) = Inr (False, h')" "length h' = length h"
          "dll h' (Some p) (y # remove1 x ys)" "\<forall>c. idx (h' ! c) = idx (h ! c)"
          "\<forall>c. c \<notin> set (y # ys) \<longrightarrow> h' ! c = h ! c"
      by blast
    have p: "h' ! p = h ! p" using h'(5) Cons.prems by simp
    have "dll h' q (p # remove1 x (y # ys))"
      using False h'(2,3) p Cons.prems by simp
    moreover have "\<forall>c. c \<notin> set (p # y # ys) \<longrightarrow> h' ! c = h ! c"
      using h'(5) by simp
    ultimately show ?thesis using h'(1,2,4) by blast
  qed
qed

subsection \<open>The invariant of the list\<close>

lemma list_inv_reachable: "list_inv s as \<Longrightarrow> reachable s = Some as"
  using walk_dll_heap [of "heap s" None as] by (simp add: list_inv_def reachable_def)

lemma set_map_remove1:
  assumes "distinct (map f xs)" and "x \<in> set xs"
  shows "set (map f (remove1 x xs)) = set (map f xs) - {f x}"
    and "distinct (map f (remove1 x xs))"
proof -
  have d: "distinct xs" and i: "inj_on f (set xs)"
    using assms(1) by (simp_all add: distinct_map)
  have "f ` (set xs - {x}) = f ` set xs - {f x}"
    using i assms(2) by (auto simp: inj_on_def)
  then show "set (map f (remove1 x xs)) = set (map f xs) - {f x}"
    using d by (simp add: set_remove1_eq)
  show "distinct (map f (remove1 x xs))"
    using d i by (auto simp: distinct_map set_remove1_eq intro: inj_on_subset)
qed

lemma list_inv_AddTag:
  assumes "list_inv s as" and "i \<notin> set (held s)"
  shows "\<exists>s' as'. apply_op s (AddTag i) = Inr s' \<and> list_inv s' as'"
proof (cases as)
  case Nil
  then have hd: "head s = None" and hl: "held s = []"
    using assms(1) by (simp_all add: list_inv_def)
  let ?s' = "\<lparr>heap = heap s @ [\<lparr>prev = None, next = None, idx = i\<rparr>],
              head = Some (length (heap s)), held = i # held s\<rparr>"
  have "apply_op s (AddTag i) = Inr ?s'"
    using hd by (simp add: addTag_nil)
  moreover have "list_inv ?s' [length (heap s)]"
    using hl by (simp add: list_inv_def)
  ultimately show ?thesis by blast
next
  case (Cons a rest)
  then have hd: "head s = Some a" and d: "dll (heap s) None (a # rest)" "distinct (a # rest)"
    using assms(1) by (simp_all add: list_inv_def)
  from addTag_head [OF d, of i] obtain h' where
    h': "addTag (heap s) (Some a) i = (Some (length (heap s)), h')"
        "dll h' None (a # length (heap s) # rest)" "idx (h' ! length (heap s)) = i"
        "\<forall>b<length (heap s). idx (h' ! b) = idx (heap s ! b)"
    by blast
  let ?s' = "\<lparr>heap = h', head = Some a, held = i # held s\<rparr>"
  have rng: "\<forall>b\<in>set (a # rest). b < length (heap s)"
    using dll_in_range [OF d(1)] by blast
  have same: "map (\<lambda>b. idx (h' ! b)) (a # rest) = map (\<lambda>b. idx (heap s ! b)) (a # rest)"
    using rng h'(4) by (intro map_cong) auto
  have fresh: "length (heap s) \<notin> set (a # rest)" using rng by auto
  have old: "set (map (\<lambda>b. idx (heap s ! b)) (a # rest)) = set (held s)"
       "distinct (map (\<lambda>b. idx (heap s ! b)) (a # rest))" "distinct (held s)"
    using assms(1) Cons by (simp_all add: list_inv_def)
  have "apply_op s (AddTag i) = Inr ?s'"
    using hd h'(1) by simp
  moreover have "list_inv ?s' (a # length (heap s) # rest)"
    unfolding list_inv_def
  proof (intro conjI)
    show "dll (heap ?s') None (a # length (heap s) # rest)" using h'(2) by simp
    show "distinct (a # length (heap s) # rest)" using d(2) fresh by auto
    show "head ?s' = first_ptr (a # length (heap s) # rest)" by simp
    show "distinct (held ?s')" using old(3) assms(2) by simp
    have m: "map (\<lambda>b. idx (heap ?s' ! b)) (a # length (heap s) # rest) =
          idx (heap s ! a) # i # map (\<lambda>b. idx (heap s ! b)) rest"
      using same h'(3) by simp
    show "set (map (\<lambda>b. idx (heap ?s' ! b)) (a # length (heap s) # rest)) = set (held ?s')"
      unfolding m using old(1) by auto
    show "distinct (map (\<lambda>b. idx (heap ?s' ! b)) (a # length (heap s) # rest))"
      unfolding m using old(1,2) assms(2) by auto
  qed
  ultimately show ?thesis by blast
qed

lemma list_inv_RemoveTag:
  assumes "list_inv s as" and "x \<in> set as"
  shows "\<exists>s' as'. apply_op s (RemoveTag x) = Inr s' \<and> list_inv s' as'"
proof -
  let ?f = "\<lambda>b. idx (heap s ! b)"
  let ?held' = "remove1 (idx (heap s ! x)) (held s)"
  have inv: "dll (heap s) None as" "distinct as" "head s = first_ptr as" "distinct (held s)"
    "set (map ?f as) = set (held s)" "distinct (map ?f as)"
    using assms(1) by (simp_all add: list_inv_def)
  have held': "distinct ?held'" "set ?held' = set (map ?f as) - {idx (heap s ! x)}"
    using inv(4,5) by (simp_all add: set_remove1_eq)
  obtain p rest where as: "as = p # rest" using assms(2) by (cases as) auto
  show ?thesis
  proof (cases "x = p")
    case True
    show ?thesis
    proof (cases rest)
      case Nil
      let ?s' = "\<lparr>heap = heap s, head = None, held = ?held'\<rparr>"
      have "apply_op s (RemoveTag x) = Inr ?s'"
        using removeTag_only [of "heap s" x] inv(1) as True Nil by simp
      moreover have "list_inv ?s' []"
        using held' as True Nil by (simp add: list_inv_def)
      ultimately show ?thesis by blast
    next
      case (Cons b bs)
      from removeTag_slide [of "heap s" x b bs] inv(1,2) as True Cons obtain h' where
        h': "removeTag (heap s) (Some x) = Inr (False, h')" "dll h' None (x # bs)"
            "idx (h' ! x) = idx (heap s ! b)" "\<forall>c. c \<noteq> x \<longrightarrow> idx (h' ! c) = idx (heap s ! c)"
        by blast
      let ?s' = "\<lparr>heap = h', head = head s, held = ?held'\<rparr>"
      have xbs: "x \<notin> set (b # bs)" using inv(2) as True Cons by simp
      have m: "map (\<lambda>c. idx (heap ?s' ! c)) (x # bs) = map ?f (b # bs)"
        using h'(3,4) xbs by (auto intro: map_cong)
      have xb: "idx (heap s ! x) \<notin> set (map ?f (b # bs))"
        using inv(6) as True Cons by simp
      have "apply_op s (RemoveTag x) = Inr ?s'"
        using h'(1) by simp
      moreover have "list_inv ?s' (x # bs)"
        unfolding list_inv_def
      proof (intro conjI)
        show "dll (heap ?s') None (x # bs)" using h'(2) by simp
        show "distinct (x # bs)" using inv(2) as True Cons by simp
        show "head ?s' = first_ptr (x # bs)" using inv(3) as True by simp
        show "distinct (held ?s')" using held'(1) by simp
        show "set (map (\<lambda>c. idx (heap ?s' ! c)) (x # bs)) = set (held ?s')"
          unfolding m using held'(2) xb as True Cons by auto
        show "distinct (map (\<lambda>c. idx (heap ?s' ! c)) (x # bs))"
          unfolding m using inv(6) as True Cons by simp
      qed
      ultimately show ?thesis by blast
    qed
  next
    case False
    then have xr: "x \<in> set rest" using assms(2) as by simp
    from removeTag_inner [of "heap s" None p rest x] inv(1,2) as xr obtain h' where
      h': "removeTag (heap s) (Some x) = Inr (False, h')" "dll h' None (p # remove1 x rest)"
          "\<forall>c. idx (h' ! c) = idx (heap s ! c)"
      by blast
    let ?s' = "\<lparr>heap = h', head = head s, held = ?held'\<rparr>"
    have r1: "remove1 x as = p # remove1 x rest" using as False by simp
    have "apply_op s (RemoveTag x) = Inr ?s'"
      using h'(1) by simp
    moreover have "list_inv ?s' (remove1 x as)"
      unfolding list_inv_def
    proof (intro conjI)
      show "dll (heap ?s') None (remove1 x as)" using h'(2) r1 by simp
      show "distinct (remove1 x as)" using inv(2) by simp
      show "head ?s' = first_ptr (remove1 x as)" using inv(3) as r1 by simp
      show "distinct (held ?s')" using held'(1) by simp
      show "set (map (\<lambda>c. idx (heap ?s' ! c)) (remove1 x as)) = set (held ?s')"
        using h'(3) held'(2) set_map_remove1(1) [OF inv(6) assms(2)] by simp
      show "distinct (map (\<lambda>c. idx (heap ?s' ! c)) (remove1 x as))"
        using h'(3) set_map_remove1(2) [OF inv(6) assms(2)] by simp
    qed
    ultimately show ?thesis by blast
  qed
qed

lemma list_inv_exec:
  assumes "list_inv s as" and "admissible s ops"
  shows "\<exists>s' as'. exec_ops apply_op s ops = Inr s' \<and> list_inv s' as'"
  using assms
proof (induction ops arbitrary: s as)
  case Nil
  then show ?case by auto
next
  case (Cons x ops)
  have adm: "admissible_op s x" using Cons.prems(2) by simp
  have "\<exists>s1 as1. apply_op s x = Inr s1 \<and> list_inv s1 as1"
  proof (cases x)
    case (AddTag i)
    then show ?thesis using list_inv_AddTag [OF Cons.prems(1)] adm
      by (simp add: admissible_op_def)
  next
    case (RemoveTag a)
    then have "a \<in> set as"
      using adm list_inv_reachable [OF Cons.prems(1)] by (simp add: admissible_op_def)
    then show ?thesis using list_inv_RemoveTag [OF Cons.prems(1)] RemoveTag by simp
  qed
  then obtain s1 as1 where s1: "apply_op s x = Inr s1" "list_inv s1 as1" by blast
  have "admissible s1 ops" using Cons.prems(2) s1(1) by simp
  from Cons.IH [OF s1(2) this] show ?case using s1(1) by simp
qed

text \<open>
  C1, as the code has it. Start from a nil head; let the caller keep its head, taking
  the tag returned by \<open>addTag\<close> as head only when its head was nil and clearing the
  head when \<open>removeTag\<close> returns true; apply \<open>removeTag\<close> only to tags linked in
  the list and add only indices that the list does not hold. Then after every such
  sequence the walk from the head ends at nil and meets no tag twice, and the indices met
  are exactly those added and not yet removed, none of them twice.
\<close>

theorem tag_list_invariant:
  assumes "admissible \<lparr>heap = h0, head = None, held = []\<rparr> ops"
  shows "\<exists>s as. exec_ops apply_op \<lparr>heap = h0, head = None, held = []\<rparr> ops = Inr s \<and>
           reachable s = Some as \<and> distinct as \<and>
           reachable_idx s = Some (map (\<lambda>a. idx (heap s ! a)) as) \<and>
           set (map (\<lambda>a. idx (heap s ! a)) as) = set (held s) \<and>
           distinct (map (\<lambda>a. idx (heap s ! a)) as)"
proof -
  have "list_inv \<lparr>heap = h0, head = None, held = []\<rparr> []"
    by (simp add: list_inv_def)
  from list_inv_exec [OF this assms] obtain s as where
    s: "exec_ops apply_op \<lparr>heap = h0, head = None, held = []\<rparr> ops = Inr s" "list_inv s as"
    by blast
  have "reachable s = Some as" using s(2) by (rule list_inv_reachable)
  then show ?thesis using s by (auto simp: list_inv_def reachable_idx_def)
qed

lemma exec_123:
  "exec_ops apply_op \<lparr>heap = [], head = None, held = []\<rparr>
     [AddTag 1, AddTag 2, AddTag 3, RemoveTag 2] =
   Inr \<lparr>heap = [\<lparr>prev = None, next = Some 1, idx = 1\<rparr>,
               \<lparr>prev = Some 0, next = None, idx = 2\<rparr>,
               \<lparr>prev = None, next = None, idx = 3\<rparr>],
        head = Some 0, held = [2, 1]\<rparr>"
  by (simp add: addTag_def removeTag_def set_prev_def set_next_def set_idx_def)

theorem tag_list_invariant_witness:
  "admissible \<lparr>heap = [], head = None, held = []\<rparr> [AddTag 1, AddTag 2, AddTag 3, RemoveTag 2] \<and>
   (\<exists>s as. exec_ops apply_op \<lparr>heap = [], head = None, held = []\<rparr>
              [AddTag 1, AddTag 2, AddTag 3, RemoveTag 2] = Inr s \<and>
           reachable s = Some as \<and> distinct as \<and>
           reachable_idx s = Some (map (\<lambda>a. idx (heap s ! a)) as) \<and>
           set (map (\<lambda>a. idx (heap s ! a)) as) = set (held s) \<and>
           distinct (map (\<lambda>a. idx (heap s ! a)) as))"
proof -
  have a: "admissible \<lparr>heap = [], head = None, held = []\<rparr>
             [AddTag 1, AddTag 2, AddTag 3, RemoveTag 2]"
    by (simp add: admissible_op_def reachable_def addTag_def removeTag_def set_prev_def
        set_next_def set_idx_def)
  from tag_list_invariant [OF a] a show ?thesis by blast
qed

text \<open>
  C1 as stated fails. With the returned tag taken as the new head, adding 1 and then 2
  leaves only 2 reachable from the head, while 1 and 2 are held. And with the head
  kept, adding the index 1 twice puts it into the list twice.
\<close>

theorem tag_list_counterexample:
  "map_sum id reachable_idx
     (exec_ops apply_op_new_head \<lparr>heap = [], head = None, held = []\<rparr> [AddTag 1, AddTag 2])
     = Inr (Some [2]) \<and>
   map_sum id held
     (exec_ops apply_op_new_head \<lparr>heap = [], head = None, held = []\<rparr> [AddTag 1, AddTag 2])
     = Inr [2, 1] \<and>
   map_sum id reachable_idx
     (exec_ops apply_op \<lparr>heap = [], head = None, held = []\<rparr> [AddTag 1, AddTag 1])
     = Inr (Some [1, 1])"
  by (simp add: reachable_idx_def reachable_def addTag_def set_prev_def set_next_def)

lemma drain_snoc:
  "drain h a k = Inr (flags, h') \<Longrightarrow>
   drain h a (Suc k) =
     (case removeTag h' (Some a) of
        Inl f \<Rightarrow> Inl f
      | Inr (emptied, h'') \<Rightarrow> Inr (flags @ [emptied], h''))"
proof (induction k arbitrary: h flags)
  case 0
  then show ?case by (auto split: sum.splits)
next
  case (Suc k)
  from Suc.prems obtain e h1 fs where
    st: "removeTag h (Some a) = Inr (e, h1)" "drain h1 a k = Inr (fs, h')" "flags = e # fs"
    by (auto split: sum.splits)
  from Suc.IH [OF st(2)] st(1,3) show ?case
    by (auto split: sum.splits)
qed

lemma drain_slide:
  assumes "dll h None (a # as)" and "distinct (a # as)" and "k \<le> length as"
  shows "\<exists>h'. drain h a k = Inr (replicate k False, h') \<and> dll h' None (a # drop k as) \<and>
           map (\<lambda>b. idx (h' ! b)) (a # drop k as) = drop k (map (\<lambda>b. idx (h ! b)) (a # as))"
  using assms
proof (induction k arbitrary: h as)
  case 0
  then show ?case by simp
next
  case (Suc k)
  then obtain b bs where as: "as = b # bs" by (cases as) auto
  from removeTag_slide [of h a b bs] Suc.prems as obtain h1 where
    h1: "removeTag h (Some a) = Inr (False, h1)" "dll h1 None (a # bs)"
        "idx (h1 ! a) = idx (h ! b)" "\<forall>c. c \<noteq> a \<longrightarrow> idx (h1 ! c) = idx (h ! c)"
    by blast
  have d: "distinct (a # bs)" and k: "k \<le> length bs" using Suc.prems as by simp_all
  from Suc.IH [OF h1(2) d k] obtain h' where
    h': "drain h1 a k = Inr (replicate k False, h')" "dll h' None (a # drop k bs)"
        "map (\<lambda>c. idx (h' ! c)) (a # drop k bs) = drop k (map (\<lambda>c. idx (h1 ! c)) (a # bs))"
    by blast
  have "a \<notin> set bs" using d by simp
  then have m: "map (\<lambda>c. idx (h1 ! c)) (a # bs) = map (\<lambda>c. idx (h ! c)) (b # bs)"
    using h1(3,4) by (auto intro: map_cong)
  have "drain h a (Suc k) = Inr (replicate (Suc k) False, h')"
    using h1(1) h'(1) by simp
  moreover have "dll h' None (a # drop (Suc k) as)" using h'(2) as by simp
  moreover have "map (\<lambda>c. idx (h' ! c)) (a # drop (Suc k) as) =
                 drop (Suc k) (map (\<lambda>c. idx (h ! c)) (a # as))"
  proof -
    have "map (\<lambda>c. idx (h' ! c)) (a # drop k bs) = drop k (map (\<lambda>c. idx (h ! c)) (b # bs))"
      using h'(3) unfolding m .
    then show ?thesis using as by simp
  qed
  ultimately show ?case by blast
qed

text \<open>
  C2. On a well-linked list with head \<open>a\<close> and \<open>length as\<close> further tags, every
  one of the first \<open>length as\<close> calls of \<open>removeTag\<close> on \<open>a\<close> returns false and
  leaves \<open>a\<close> the head of a well-linked list: the successor's index and next link
  have moved into \<open>a\<close>, the new next points back at \<open>a\<close>, and the list holds the
  indices that were behind the removed one. The call after these, which removes the last
  tag, is the only one that returns true.
\<close>

theorem removeTag_head_stable:
  assumes "dll h None (a # as)" and "distinct (a # as)"
  shows "(\<forall>k\<le>length as. \<exists>h'.
            drain h a k = Inr (replicate k False, h') \<and> dll h' None (a # drop k as) \<and>
            map (\<lambda>b. idx (h' ! b)) (a # drop k as) = drop k (map (\<lambda>b. idx (h ! b)) (a # as))) \<and>
         (\<exists>h'. drain h a (Suc (length as)) = Inr (replicate (length as) False @ [True], h'))"
proof (intro conjI allI impI)
  fix k assume "k \<le> length as"
  then show "\<exists>h'. drain h a k = Inr (replicate k False, h') \<and> dll h' None (a # drop k as) \<and>
            map (\<lambda>b. idx (h' ! b)) (a # drop k as) = drop k (map (\<lambda>b. idx (h ! b)) (a # as))"
    by (rule drain_slide [OF assms])
next
  from drain_slide [OF assms, of "length as"] obtain h' where
    h': "drain h a (length as) = Inr (replicate (length as) False, h')" "dll h' None [a]"
    by auto
  from drain_snoc [OF h'(1)] removeTag_only [OF h'(2)]
  show "\<exists>h'. drain h a (Suc (length as)) = Inr (replicate (length as) False @ [True], h')"
    by simp
qed

theorem removeTag_head_stable_witness:
  "dll [\<lparr>prev = None, next = Some 2, idx = 1\<rparr>, \<lparr>prev = Some 2, next = None, idx = 2\<rparr>,
        \<lparr>prev = Some 0, next = Some 1, idx = 3\<rparr>] None [0, 2, 1] \<and>
   (\<exists>h'. drain [\<lparr>prev = None, next = Some 2, idx = 1\<rparr>, \<lparr>prev = Some 2, next = None, idx = 2\<rparr>,
                \<lparr>prev = Some 0, next = Some 1, idx = 3\<rparr>] 0 3 = Inr ([False, False, True], h'))"
proof -
  let ?h = "[\<lparr>prev = None, next = Some 2, idx = 1\<rparr>, \<lparr>prev = Some 2, next = None, idx = 2\<rparr>,
             \<lparr>prev = Some 0, next = Some 1, idx = 3\<rparr>]"
  have d: "dll ?h None [0, 2, 1]" by simp
  have "distinct [0::nat, 2, 1]" by simp
  from removeTag_head_stable [OF d this] obtain h' where
    "drain ?h 0 (Suc (length [2::nat, 1])) = Inr (replicate (length [2::nat, 1]) False @ [True], h')"
    by blast
  then have "drain ?h 0 3 = Inr ([False, False, True], h')"
    by (simp add: numeral_3_eq_3)
  with d show ?thesis by blast
qed

section \<open>Properties of the lexer\<close>

lemma runes_simps [simp]: "runes [] = []" "runes (c # cs) = rune c # runes cs"
  by (simp_all add: runes_def)

lemma rune_Char [simp]:
  "rune (Char b0 b1 b2 b3 b4 b5 b6 b7) = of_char (Char b0 b1 b2 b3 b4 b5 b6 b7)"
  by (simp add: rune_def)

lemma isWhiteSpace_simps [simp]: "isWhiteSpace U 0" "isWhiteSpace U 32"
  by (simp_all add: isWhiteSpace_def IsSpace_def MaxLatin1_def)

lemmas lexer_defs =
  lex_def run_def run_loop.simps lexCommand_def lexCommandS_def lexCommandST_def lexMatch_def
  match_def lexSkipWhiteSpaces_def lexSkipWhiteSpaces_loop.simps lexer_next_def backup_def
  ignore_def emit_def current_def Consume_def peek_def IsSpace_def MaxLatin1_def errorToken_def

subsection \<open>The tokens handed to the consumer\<close>

lemma tokens_lexer_next [simp]: "tokens (snd (lexer_next l)) = tokens l"
  by (simp add: lexer_next_def)

lemma tokens_backup [simp]: "tokens (backup l) = tokens l"
  by (simp add: backup_def)

lemma tokens_ignore [simp]: "tokens (ignore l) = tokens l"
  by (simp add: ignore_def)

lemma tokens_peek [simp]: "tokens (snd (peek l)) = tokens l"
  by (simp add: peek_def split: prod.splits) (metis snd_conv tokens_lexer_next)

lemma tokens_current [simp]: "tokens (snd (current l)) = tokens l"
  by (simp add: current_def)

lemma tokens_emit [simp]: "tokens (emit k l) = tokens l @ [\<lparr>typ = k, val = fst (current l)\<rparr>]"
  by (simp add: emit_def Consume_def current_def)

lemma tokens_errorToken [simp]:
  "tokens (snd (errorToken U format l)) = tokens l @ [\<lparr>typ = tokenTypeError, val = Sprintf U format\<rparr>]"
  by (simp add: errorToken_def Consume_def)

lemma tokens_scanTillWhiteSpace [simp]: "tokens (scanTillWhiteSpace U l) = tokens l"
proof (induction U l rule: scanTillWhiteSpace.induct)
  case (1 U l)
  obtain r l' where nx: "lexer_next l = (r, l')" by force
  have tl: "tokens l' = tokens l" using tokens_lexer_next [of l] nx by simp
  show ?case using 1 [OF nx [symmetric]] tl nx
    by (subst scanTillWhiteSpace.simps) auto
qed

lemma tokens_lexSkipWhiteSpaces_loop [simp]: "tokens (lexSkipWhiteSpaces_loop U l) = tokens l"
proof (induction U l rule: lexSkipWhiteSpaces_loop.induct)
  case (1 U l)
  obtain r l' where nx: "lexer_next l = (r, l')" by force
  have tl: "tokens l' = tokens l" using tokens_lexer_next [of l] nx by simp
  show ?case using 1 [OF nx [symmetric]] tl nx
    by (subst lexSkipWhiteSpaces_loop.simps) auto
qed

lemma tokens_lexSqlIdentifier_loop [simp]: "tokens (lexSqlIdentifier_loop U l) = tokens l"
proof (induction U l rule: lexSqlIdentifier_loop.induct)
  case (1 U l)
  obtain r l' where nx: "lexer_next l = (r, l')" by force
  have tl: "tokens l' = tokens l" using tokens_lexer_next [of l] nx by simp
  show ?case using 1 [OF nx [symmetric]] tl nx
    by (subst lexSqlIdentifier_loop.simps) auto
qed

lemma tokens_lexSkipWhiteSpaces [simp]: "tokens (lexSkipWhiteSpaces U l) = tokens l"
  by (simp add: lexSkipWhiteSpaces_def)

lemma tokens_match_loop [simp]: "tokens (snd (match_loop str skip d l)) = tokens l"
proof (induction str skip d l rule: match_loop.induct)
  case (1 skip d l)
  show ?case by simp
next
  case (2 r str skip d l)
  obtain c l' where nx: "lexer_next l = (c, l')" by force
  have tl: "tokens l' = tokens l" using tokens_lexer_next [of l] nx by simp
  show ?case using 2 nx tl by (cases "skip > 0") auto
qed

lemma tokens_match [simp]: "tokens (snd (match U str skip l)) = tokens l"
proof -
  obtain d l1 where ml: "match_loop str skip True l = (d, l1)" by force
  obtain r l2 where pk: "peek l1 = (r, l2)" by force
  have "tokens l1 = tokens l" using tokens_match_loop [of str skip True l] ml by simp
  moreover have "tokens l2 = tokens l1" using tokens_peek [of l1] pk by simp
  ultimately show ?thesis by (simp add: match_def ml pk)
qed

lemma one_token_errorToken: "tokens l' = tokens l \<Longrightarrow> one_token l (errorToken U format l')"
  by (simp add: one_token_def errorToken_def Consume_def)

lemma one_token_lexMatch:
  assumes "ty \<noteq> tokenTypeEOF" and "ty \<noteq> tokenTypeError" and "tokens l' = tokens l"
  shows "one_token l (lexMatch U ty command skip fn l')"
proof -
  obtain ok l1 where m: "match U command skip l' = (ok, l1)" by force
  have t1: "tokens l1 = tokens l" using tokens_match [of U command skip l'] m assms(3) by simp
  obtain str l2 where c: "current l1 = (str, l2)" by force
  have t2: "tokens l2 = tokens l" using tokens_current [of l1] c t1 by simp
  show ?thesis
  proof (cases ok)
    case True
    then show ?thesis using m t1 assms by (simp add: lexMatch_def one_token_def)
  next
    case False
    then show ?thesis using m c one_token_errorToken [OF t2] by (simp add: lexMatch_def)
  qed
qed

lemma one_token_lexCommandST:
  assumes "tokens l' = tokens l"
  shows "one_token l (lexCommandST U l')"
proof -
  obtain r l1 where n1: "lexer_next l' = (r, l1)" by force
  obtain r2 l2 where n2: "lexer_next l1 = (r2, l2)" by force
  have t1: "tokens l1 = tokens l" using tokens_lexer_next [of l'] n1 assms by simp
  have t2: "tokens l2 = tokens l" using tokens_lexer_next [of l1] n2 t1 by simp
  show ?thesis using n1 n2 t1 t2
    by (simp add: lexCommandST_def one_token_lexMatch)
qed

lemma one_token_lexCommandS:
  assumes "tokens l' = tokens l"
  shows "one_token l (lexCommandS U l')"
proof -
  obtain r l1 where n1: "lexer_next l' = (r, l1)" by force
  have t1: "tokens l1 = tokens l" using tokens_lexer_next [of l'] n1 assms by simp
  obtain str l2 where c: "current l1 = (str, l2)" by force
  have t2: "tokens l2 = tokens l" using tokens_current [of l1] c t1 by simp
  show ?thesis using n1 t1 c t2
    by (simp add: lexCommandS_def one_token_lexMatch one_token_lexCommandST one_token_errorToken)
qed

lemma one_token_lexCommand: "one_token l (lexCommand U l)"
proof -
  obtain r l1 where n1: "lexer_next (lexSkipWhiteSpaces U l) = (r, l1)" by force
  obtain r2 l2 where n2: "lexer_next l1 = (r2, l2)" by force
  have t1: "tokens l1 = tokens l" using tokens_lexer_next [of "lexSkipWhiteSpaces U l"] n1 by simp
  have t2: "tokens l2 = tokens l" using tokens_lexer_next [of l1] n2 t1 by simp
  obtain str l3 where c: "current l1 = (str, l3)" by force
  have t3: "tokens l3 = tokens l" using tokens_current [of l1] c t1 by simp
  show ?thesis using n1 n2 t1 t2 c t3
    by (simp add: lexCommand_def one_token_lexMatch one_token_lexCommandS one_token_errorToken)
qed

lemma one_token_lexSqlInsertInto: "one_token l (lexSqlInsertInto U l)"
  by (simp add: lexSqlInsertInto_def one_token_lexMatch)

lemma one_token_lexSqlIdentifier:
  assumes "ty \<noteq> tokenTypeEOF" and "ty \<noteq> tokenTypeError"
  shows "one_token l (lexSqlIdentifier U ty fn l)"
proof -
  obtain r l1 where n1: "lexer_next (lexSkipWhiteSpaces U l) = (r, l1)" by force
  have t1: "tokens l1 = tokens l" using tokens_lexer_next [of "lexSkipWhiteSpaces U l"] n1 by simp
  obtain str l2 where c: "current l1 = (str, l2)" by force
  have t2: "tokens l2 = tokens l" using tokens_current [of l1] c t1 by simp
  show ?thesis
  proof (cases "IsLetter U r")
    case True
    then show ?thesis using n1 t1 assms by (simp add: lexSqlIdentifier_def one_token_def)
  next
    case False
    then show ?thesis using n1 c one_token_errorToken [OF t2] by (simp add: lexSqlIdentifier_def)
  qed
qed

lemma one_token_lexSqlLeftParenthesis: "one_token l (lexSqlLeftParenthesis U fn l)"
proof -
  obtain r l1 where n1: "lexer_next (lexSkipWhiteSpaces U l) = (r, l1)" by force
  have t1: "tokens l1 = tokens l" using tokens_lexer_next [of "lexSkipWhiteSpaces U l"] n1 by simp
  show ?thesis
  proof (cases "r = rune CHR ''(''")
    case True
    then show ?thesis using n1 t1 by (simp add: lexSqlLeftParenthesis_def one_token_def)
  next
    case False
    then show ?thesis using n1 one_token_errorToken [OF t1]
      by (simp add: lexSqlLeftParenthesis_def)
  qed
qed

lemma one_token_call: "one_token l (call U f l)"
  by (cases f)
     (simp_all add: one_token_lexCommand one_token_lexSqlInsertInto one_token_lexSqlIdentifier
        one_token_lexSqlLeftParenthesis lexSqlInsertIntoTable_def
        lexSqlInsertIntoTableLeftParenthesis_def)

lemma tokens_run_loop:
  "\<exists>ts. tokens (run_loop U state l) = tokens l @ ts \<and> (state \<noteq> None \<longrightarrow> ts \<noteq> []) \<and>
        (\<forall>t\<in>set ts. typ t \<noteq> tokenTypeEOF) \<and> (\<forall>t\<in>set (butlast ts). typ t \<noteq> tokenTypeError)"
proof (induction U state l rule: run_loop.induct)
  case (1 U state l)
  show ?case
  proof (cases state)
    case None
    then show ?thesis by (subst run_loop.simps) simp
  next
    case (Some f)
    obtain state' l' where c: "call U f l = (state', l')" by force
    from one_token_call [of l U f] c obtain t where
      t: "tokens l' = tokens l @ [t]" "typ t \<noteq> tokenTypeEOF"
         "typ t = tokenTypeError \<longrightarrow> state' = None"
      by (auto simp: one_token_def)
    from 1 [OF Some c [symmetric]] obtain ts where
      ts: "tokens (run_loop U state' l') = tokens l' @ ts" "state' \<noteq> None \<longrightarrow> ts \<noteq> []"
          "\<forall>t\<in>set ts. typ t \<noteq> tokenTypeEOF" "\<forall>t\<in>set (butlast ts). typ t \<noteq> tokenTypeError"
      by blast
    have rl: "run_loop U state l = run_loop U state' l'"
      using Some c by (subst run_loop.simps) simp
    have nil: "state' = None \<Longrightarrow> ts = []"
      using ts(1) by (subst (asm) run_loop.simps) simp
    have "tokens (run_loop U state l) = tokens l @ (t # ts)"
      using rl ts(1) t(1) by simp
    moreover have "\<forall>x\<in>set (t # ts). typ x \<noteq> tokenTypeEOF"
      using t(2) ts(3) by simp
    moreover have "\<forall>x\<in>set (butlast (t # ts)). typ x \<noteq> tokenTypeError"
      using t(3) ts(4) nil by (cases "ts = []") auto
    ultimately show ?thesis by blast
  qed
qed

lemma lex_shape:
  "\<exists>pre e. lex U inp = pre @ [e] \<and> typ e = tokenTypeEOF \<and> pre \<noteq> [] \<and>
     (\<forall>t\<in>set pre. typ t \<noteq> tokenTypeEOF) \<and> (\<forall>t\<in>set (butlast pre). typ t \<noteq> tokenTypeError)"
proof -
  let ?l = "\<lparr>input = inp, start = 0, pos = 0, width = 0, tokens = []\<rparr>"
  from tokens_run_loop [of U "Some Fn_lexCommand" ?l] obtain ts where
    ts: "tokens (run_loop U (Some Fn_lexCommand) ?l) = ts" "ts \<noteq> []"
        "\<forall>t\<in>set ts. typ t \<noteq> tokenTypeEOF" "\<forall>t\<in>set (butlast ts). typ t \<noteq> tokenTypeError"
    by auto
  have "lex U inp = ts @ [\<lparr>typ = tokenTypeEOF, val = fst (current (run_loop U (Some Fn_lexCommand) ?l))\<rparr>]"
    using ts(1) by (simp add: lex_def run_def)
  with ts show ?thesis by auto
qed

subsection \<open>The cursor stays within the input\<close>

text \<open>
  In every state that a scan reaches, \<open>start \<le> pos \<le> len(input)\<close>: the slice taken by
  \<open>current\<close> is in range, and \<open>backup\<close>, which is only called right after \<open>next\<close>,
  never moves \<open>pos\<close> below \<open>start\<close>.
\<close>

lemma ok_next_imp_ok: "lexer_ok_next l \<Longrightarrow> lexer_ok l"
  by (simp add: lexer_ok_def lexer_ok_next_def)

lemma ok_lexer_next: "lexer_ok l \<Longrightarrow> lexer_ok_next (snd (lexer_next l))"
  by (simp add: lexer_ok_def lexer_ok_next_def lexer_next_def)

lemma ok_backup: "lexer_ok_next l \<Longrightarrow> lexer_ok (backup l)"
  by (auto simp: lexer_ok_def lexer_ok_next_def backup_def)

lemma ok_ignore: "lexer_ok l \<Longrightarrow> lexer_ok (ignore l)"
  by (simp add: lexer_ok_def ignore_def)

lemma ok_current: "lexer_ok l \<Longrightarrow> lexer_ok (snd (current l))"
  by (simp add: lexer_ok_def current_def)

lemma ok_emit: "lexer_ok l \<Longrightarrow> lexer_ok (emit k l)"
  by (simp add: lexer_ok_def emit_def current_def Consume_def)

lemma ok_errorToken: "lexer_ok l \<Longrightarrow> lexer_ok (snd (errorToken U format l))"
  by (simp add: lexer_ok_def errorToken_def Consume_def)

lemma ok_peek: "lexer_ok l \<Longrightarrow> lexer_ok (snd (peek l))"
proof -
  assume ok: "lexer_ok l"
  obtain r l' where nx: "lexer_next l = (r, l')" by force
  have "lexer_ok (backup l')" using ok_backup [OF ok_lexer_next [OF ok]] nx by simp
  then show ?thesis by (simp add: peek_def nx)
qed

lemma ok_scanTillWhiteSpace: "lexer_ok l \<Longrightarrow> lexer_ok_next (scanTillWhiteSpace U l)"
proof (induction U l rule: scanTillWhiteSpace.induct)
  case (1 U l)
  obtain r l' where nx: "lexer_next l = (r, l')" by force
  have n: "lexer_ok_next l'" using ok_lexer_next [OF 1(2)] nx by simp
  show ?case using 1(1) [OF nx [symmetric]] n nx ok_next_imp_ok [OF n]
    by (subst scanTillWhiteSpace.simps) auto
qed

lemma ok_lexSkipWhiteSpaces_loop:
  "lexer_ok l \<Longrightarrow> lexer_ok_next (lexSkipWhiteSpaces_loop U l)"
proof (induction U l rule: lexSkipWhiteSpaces_loop.induct)
  case (1 U l)
  obtain r l' where nx: "lexer_next l = (r, l')" by force
  have n: "lexer_ok_next l'" using ok_lexer_next [OF 1(2)] nx by simp
  show ?case using 1(1) [OF nx [symmetric]] n nx ok_next_imp_ok [OF n]
    by (subst lexSkipWhiteSpaces_loop.simps) auto
qed

lemma ok_lexSqlIdentifier_loop:
  "lexer_ok l \<Longrightarrow> lexer_ok_next (lexSqlIdentifier_loop U l)"
proof (induction U l rule: lexSqlIdentifier_loop.induct)
  case (1 U l)
  obtain r l' where nx: "lexer_next l = (r, l')" by force
  have n: "lexer_ok_next l'" using ok_lexer_next [OF 1(2)] nx by simp
  show ?case using 1(1) [OF nx [symmetric]] n nx ok_next_imp_ok [OF n]
    by (subst lexSqlIdentifier_loop.simps) auto
qed

lemma ok_lexSkipWhiteSpaces: "lexer_ok l \<Longrightarrow> lexer_ok (lexSkipWhiteSpaces U l)"
  by (simp add: lexSkipWhiteSpaces_def ok_ignore ok_backup ok_lexSkipWhiteSpaces_loop)

lemma ok_match_loop: "lexer_ok l \<Longrightarrow> lexer_ok (snd (match_loop str skip d l))"
proof (induction str skip d l rule: match_loop.induct)
  case (1 skip d l)
  then show ?case by simp
next
  case (2 r str skip d l)
  obtain c l' where nx: "lexer_next l = (c, l')" by force
  have n: "lexer_ok l'" using ok_next_imp_ok [OF ok_lexer_next [OF 2(3)]] nx by simp
  show ?case using 2 nx n by (cases "skip > 0") auto
qed

lemma ok_match: "lexer_ok l \<Longrightarrow> lexer_ok (snd (match U str skip l))"
proof -
  assume ok: "lexer_ok l"
  obtain d l1 where ml: "match_loop str skip True l = (d, l1)" by force
  obtain r l2 where pk: "peek l1 = (r, l2)" by force
  have o1: "lexer_ok l1" using ok_match_loop [OF ok, of str skip True] ml by simp
  have o2: "lexer_ok l2" using ok_peek [OF o1] pk by simp
  show ?thesis using o2 ok_next_imp_ok [OF ok_scanTillWhiteSpace [OF o2]]
    by (simp add: match_def ml pk)
qed

lemma ok_lexMatch: "lexer_ok l \<Longrightarrow> lexer_ok (snd (lexMatch U ty command skip fn l))"
proof -
  assume ok: "lexer_ok l"
  obtain b l1 where m: "match U command skip l = (b, l1)" by force
  have o1: "lexer_ok l1" using ok_match [OF ok, of U command skip] m by simp
  obtain str l2 where c: "current l1 = (str, l2)" by force
  have o2: "lexer_ok l2" using ok_current [OF o1] c by simp
  show ?thesis using m c o1 o2 by (simp add: lexMatch_def ok_emit ok_errorToken)
qed

lemma ok_next2:
  assumes "lexer_ok l" and "lexer_next l = (r, l1)"
  shows "lexer_ok l1"
  using ok_next_imp_ok [OF ok_lexer_next [OF assms(1)]] assms(2) by simp

lemma ok_current2:
  assumes "lexer_ok l" and "current l = (str, l1)"
  shows "lexer_ok l1"
  using ok_current [OF assms(1)] assms(2) by simp

lemma ok_lexCommandST: "lexer_ok l \<Longrightarrow> lexer_ok (snd (lexCommandST U l))"
  by (auto simp: lexCommandST_def split: prod.splits intro!: ok_lexMatch dest: ok_next2)

lemma ok_lexCommandS: "lexer_ok l \<Longrightarrow> lexer_ok (snd (lexCommandS U l))"
  by (auto simp: lexCommandS_def split: prod.splits
      intro!: ok_lexMatch ok_lexCommandST ok_errorToken dest: ok_next2 ok_current2)

lemma ok_lexCommand: "lexer_ok l \<Longrightarrow> lexer_ok (snd (lexCommand U l))"
proof -
  assume "lexer_ok l"
  then have "lexer_ok (lexSkipWhiteSpaces U l)" by (rule ok_lexSkipWhiteSpaces)
  then show ?thesis
    by (auto simp: lexCommand_def split: prod.splits
        intro!: ok_lexMatch ok_lexCommandS ok_errorToken dest: ok_next2 ok_current2)
qed

lemma ok_lexSqlIdentifier: "lexer_ok l \<Longrightarrow> lexer_ok (snd (lexSqlIdentifier U ty fn l))"
proof -
  assume "lexer_ok l"
  then have s: "lexer_ok (lexSkipWhiteSpaces U l)" by (rule ok_lexSkipWhiteSpaces)
  obtain r l1 where nx: "lexer_next (lexSkipWhiteSpaces U l) = (r, l1)" by force
  have o1: "lexer_ok l1" using ok_next2 [OF s nx] .
  obtain str l2 where c: "current l1 = (str, l2)" by force
  have o2: "lexer_ok l2" using ok_current2 [OF o1 c] .
  show ?thesis using nx c o1 o2
    by (simp add: lexSqlIdentifier_def ok_errorToken ok_emit ok_backup ok_lexSqlIdentifier_loop)
qed

lemma ok_lexSqlLeftParenthesis: "lexer_ok l \<Longrightarrow> lexer_ok (snd (lexSqlLeftParenthesis U fn l))"
proof -
  assume "lexer_ok l"
  then have s: "lexer_ok (lexSkipWhiteSpaces U l)" by (rule ok_lexSkipWhiteSpaces)
  obtain r l1 where nx: "lexer_next (lexSkipWhiteSpaces U l) = (r, l1)" by force
  have o1: "lexer_ok l1" using ok_next2 [OF s nx] .
  show ?thesis using nx o1 by (simp add: lexSqlLeftParenthesis_def ok_errorToken ok_emit)
qed

lemma ok_call: "lexer_ok l \<Longrightarrow> lexer_ok (snd (call U f l))"
  by (cases f)
     (simp_all add: ok_lexCommand ok_lexSqlIdentifier ok_lexSqlLeftParenthesis ok_lexMatch
        ok_lexSkipWhiteSpaces lexSqlInsertInto_def lexSqlInsertIntoTable_def
        lexSqlInsertIntoTableLeftParenthesis_def)

lemma ok_run_loop: "lexer_ok l \<Longrightarrow> lexer_ok (run_loop U state l)"
proof (induction U state l rule: run_loop.induct)
  case (1 U state l)
  show ?case
  proof (cases state)
    case None
    then show ?thesis using 1(2) by (subst run_loop.simps) simp
  next
    case (Some f)
    obtain state' l' where c: "call U f l = (state', l')" by force
    have "lexer_ok l'" using ok_call [OF 1(2), of U f] c by simp
    from 1(1) [OF Some c [symmetric] this] show ?thesis
      using Some c by (subst run_loop.simps) simp
  qed
qed

lemma ok_run: "lexer_ok (run U \<lparr>input = inp, start = 0, pos = 0, width = 0, tokens = []\<rparr>)"
proof -
  have "lexer_ok \<lparr>input = inp, start = 0, pos = 0, width = 0, tokens = []\<rparr>"
    by (simp add: lexer_ok_def)
  then show ?thesis unfolding run_def by (intro ok_emit ok_run_loop)
qed

subsection \<open>The claims\<close>

text \<open>
  C4, as the code has it. The select keyword hands on no further state function, so the
  scan of \<open>select * from t1\<close> stops after the keyword: the consumer receives the
  select token and the end-of-input token, and nothing for the rest of the line.
\<close>

theorem lex_select_star_from:
  "lex U (runes ''select * from t1'') =
     [\<lparr>typ = tokenTypeSqlSelect, val = runes ''select''\<rparr>, \<lparr>typ = tokenTypeEOF, val = []\<rparr>]"
  by (simp add: lexer_defs)

text \<open>C4 as stated fails: the five-token sequence is not what the consumer receives.\<close>

theorem lex_select_star_from_counterexample:
  "map typ (lex latin1_lib (runes ''select * from t1'')) \<noteq>
     [tokenTypeSqlSelect, tokenTypeSqlStar, tokenTypeSqlFrom, tokenTypeSqlId, tokenTypeEOF]"
  by (simp add: lexer_defs)

text \<open>
  C5. The words \<open>start\<close>, \<open>status\<close> and \<open>stop\<close> lex to their command tokens.
\<close>

lemma lex_start_status_stop:
  "lex U (runes ''start'') =
     [\<lparr>typ = tokenTypeCmdStart, val = runes ''start''\<rparr>, \<lparr>typ = tokenTypeEOF, val = []\<rparr>]"
  "lex U (runes ''status'') =
     [\<lparr>typ = tokenTypeCmdStatus, val = runes ''status''\<rparr>, \<lparr>typ = tokenTypeEOF, val = []\<rparr>]"
  "lex U (runes ''stop'') =
     [\<lparr>typ = tokenTypeCmdStop, val = runes ''stop''\<rparr>, \<lparr>typ = tokenTypeEOF, val = []\<rparr>]"
  by (simp_all add: lexer_defs)

text \<open>
  C5, the last part. The rune that \<open>lexCommandST\<close> reads to choose its branch is
  counted in \<open>skip\<close> but never compared with the keyword: the word \<open>stxp\<close> lexes to
  the stop-command token, and \<open>stazus\<close> to the status-command token.
\<close>

theorem lex_stxp_is_stop:
  "lex U (runes ''stxp'') =
     [\<lparr>typ = tokenTypeCmdStop, val = runes ''stxp''\<rparr>, \<lparr>typ = tokenTypeEOF, val = []\<rparr>]"
  by (simp add: lexer_defs)

lemma lex_stazus_is_status:
  "lex U (runes ''stazus'') =
     [\<lparr>typ = tokenTypeCmdStatus, val = runes ''stazus''\<rparr>, \<lparr>typ = tokenTypeEOF, val = []\<rparr>]"
  by (simp add: lexer_defs)

text \<open>
  A keyword of the vocabulary followed directly by a rune that is no white space: at the
  start of a command the scan fails, whatever comes after.
\<close>

lemma lex_command_word_no_boundary:
  assumes "kw \<in> set command_words" and "\<not> isWhiteSpace U c"
  shows "map typ (lex U (runes kw @ c # rest)) = [tokenTypeError, tokenTypeEOF]"
proof -
  have "kw = ''help'' \<or> kw = ''status'' \<or> kw = ''stop'' \<or> kw = ''start'' \<or> kw = ''create'' \<or>
        kw = ''table'' \<or> kw = ''insert'' \<or> kw = ''into'' \<or> kw = ''update'' \<or> kw = ''delete'' \<or>
        kw = ''from'' \<or> kw = ''select'' \<or> kw = ''subscribe'' \<or> kw = ''unsubscribe'' \<or>
        kw = ''where''"
    using assms(1) unfolding command_words_def by (simp only: set_simps insert_iff empty_iff simp_thms)
  then show ?thesis
  proof (elim disjE)
    assume "kw = ''help''"
    then show ?thesis using assms(2) by (simp add: lexer_defs)
  next
    assume "kw = ''status''"
    then show ?thesis using assms(2) by (simp add: lexer_defs)
  next
    assume "kw = ''stop''"
    then show ?thesis using assms(2) by (simp add: lexer_defs)
  next
    assume "kw = ''start''"
    then show ?thesis using assms(2) by (simp add: lexer_defs)
  next
    assume "kw = ''create''"
    then show ?thesis using assms(2) by (simp add: lexer_defs)
  next
    assume "kw = ''table''"
    then show ?thesis using assms(2) by (simp add: lexer_defs)
  next
    assume "kw = ''insert''"
    then show ?thesis using assms(2) by (simp add: lexer_defs)
  next
    assume "kw = ''into''"
    then show ?thesis using assms(2) by (simp add: lexer_defs)
  next
    assume "kw = ''update''"
    then show ?thesis using assms(2) by (simp add: lexer_defs)
  next
    assume "kw = ''delete''"
    then show ?thesis using assms(2) by (simp add: lexer_defs)
  next
    assume "kw = ''from''"
    then show ?thesis using assms(2) by (simp add: lexer_defs)
  next
    assume "kw = ''select''"
    then show ?thesis using assms(2) by (simp add: lexer_defs)
  next
    assume "kw = ''subscribe''"
    then show ?thesis using assms(2) by (simp add: lexer_defs)
  next
    assume "kw = ''unsubscribe''"
    then show ?thesis using assms(2) by (simp add: lexer_defs)
  next
    assume "kw = ''where''"
    then show ?thesis using assms(2) by (simp add: lexer_defs)
  qed
qed

lemma lex_into_no_boundary:
  assumes "\<not> isWhiteSpace U c"
  shows "map typ (lex U (runes ''insert into'' @ c # rest)) =
           [tokenTypeSqlInsert, tokenTypeError, tokenTypeEOF]"
  using assms by (simp add: lexer_defs lexSqlInsertInto_def)

text \<open>
  C6. A keyword followed at once by a rune that is neither white space nor the end of
  the input is not matched: at the start of a command the consumer receives an error
  token and no keyword token, and so it does for \<open>into\<close> in its place after
  \<open>insert\<close>.
\<close>

theorem lex_keyword_without_boundary:
  assumes "kw \<in> set command_words" and "\<not> isWhiteSpace U c"
  shows "map typ (lex U (runes kw @ c # rest)) = [tokenTypeError, tokenTypeEOF] \<and>
         map typ (lex U (runes ''insert into'' @ c # rest)) =
           [tokenTypeSqlInsert, tokenTypeError, tokenTypeEOF]"
  using assms lex_command_word_no_boundary lex_into_no_boundary by simp

theorem lex_keyword_without_boundary_witness:
  "''select'' \<in> set command_words \<and> \<not> isWhiteSpace latin1_lib (rune CHR ''x'') \<and>
   map typ (lex latin1_lib (runes ''selectx'')) = [tokenTypeError, tokenTypeEOF]"
proof -
  have k: "''select'' \<in> set command_words" by (simp add: command_words_def)
  have c: "\<not> isWhiteSpace latin1_lib (rune CHR ''x'')"
    by (simp add: isWhiteSpace_def IsSpace_def MaxLatin1_def)
  from lex_keyword_without_boundary [OF k c, of "[]"] k c show ?thesis by simp
qed

text \<open>
  C7, as the code has it. For every input the consumer receives exactly one end-of-input
  token, as the last token, and at most one error token, which then comes right before
  the end-of-input token.
\<close>

theorem lex_terminal_signals:
  "count_typ tokenTypeEOF (lex U inp) = 1 \<and> typ (last (lex U inp)) = tokenTypeEOF \<and>
   count_typ tokenTypeError (lex U inp) \<le> 1 \<and>
   (\<forall>t\<in>set (butlast (butlast (lex U inp))). typ t \<noteq> tokenTypeError)"
proof -
  from lex_shape [of U inp] obtain pre e where
    s: "lex U inp = pre @ [e]" "typ e = tokenTypeEOF" "pre \<noteq> []"
       "\<forall>t\<in>set pre. typ t \<noteq> tokenTypeEOF" "\<forall>t\<in>set (butlast pre). typ t \<noteq> tokenTypeError"
    by blast
  have f1: "filter (\<lambda>t. typ t = tokenTypeEOF) pre = []"
    using s(4) by (simp add: filter_empty_conv)
  have f2: "filter (\<lambda>t. typ t = tokenTypeError) (butlast pre) = []"
    using s(5) by (simp add: filter_empty_conv)
  have "pre = butlast pre @ [last pre]" using s(3) by simp
  then have "filter (\<lambda>t. typ t = tokenTypeError) pre =
             filter (\<lambda>t. typ t = tokenTypeError) [last pre]"
    using f2 by (metis filter_append append_Nil)
  then have f3: "length (filter (\<lambda>t. typ t = tokenTypeError) pre) \<le> 1" by simp
  show ?thesis using s f1 f3 by (simp add: count_typ_def butlast_append)
qed

theorem lex_terminal_signals_witness:
  "lex latin1_lib (runes ''insert x'') =
     [\<lparr>typ = tokenTypeSqlInsert, val = runes ''insert''\<rparr>,
      \<lparr>typ = tokenTypeError, val = runes ''Unexpected token:x''\<rparr>,
      \<lparr>typ = tokenTypeEOF, val = []\<rparr>] \<and>
   count_typ tokenTypeEOF (lex latin1_lib (runes ''insert x'')) = 1 \<and>
   typ (last (lex latin1_lib (runes ''insert x''))) = tokenTypeEOF \<and>
   count_typ tokenTypeError (lex latin1_lib (runes ''insert x'')) \<le> 1"
proof -
  have "lex latin1_lib (runes ''insert x'') =
     [\<lparr>typ = tokenTypeSqlInsert, val = runes ''insert''\<rparr>,
      \<lparr>typ = tokenTypeError, val = runes ''Unexpected token:x''\<rparr>,
      \<lparr>typ = tokenTypeEOF, val = []\<rparr>]"
    by (simp add: lexer_defs lexSqlInsertInto_def scanTillWhiteSpace.simps isWhiteSpace_def
        latin1_lib_def)
  with lex_terminal_signals [of latin1_lib "runes ''insert x''"] show ?thesis by blast
qed

text \<open>
  C7 as stated fails: on the input \<open>x\<close> the consumer receives an error token and an
  end-of-input token, two terminal signals.
\<close>

theorem lex_terminal_signal_counterexample:
  "map typ (lex latin1_lib (runes ''x'')) = [tokenTypeError, tokenTypeEOF] \<and>
   count_typ tokenTypeError (lex latin1_lib (runes ''x'')) +
     count_typ tokenTypeEOF (lex latin1_lib (runes ''x'')) \<noteq> 1"
  by (simp add: lexer_defs count_typ_def)

section \<open>Properties of the bridge parser\<close>

text \<open>
  C8. After the connect keyword, a literal-value token followed by end-of-input gives
  the connect request whose address is the text of that token, from \<open>parseMysqlConnect\<close>
  and from the dispatcher \<open>parseSqlMysql\<close> alike; with end-of-input in the place of
  the address the result is the error request whose message names the kind of the token
  found.
\<close>

theorem parseMysqlConnect_address:
  assumes "typ_srv c = tokenTypeSqlConnect"
    and "typ_srv tok = Base tokenTypeSqlValue"
    and "typ_srv e = Base tokenTypeEOF"
  shows "fst (parseMysqlConnect S \<lparr>tokens_p = [tok, e]\<rparr>) = mysqlConnectRequest (val_srv tok) \<and>
         fst (parseSqlMysql S \<lparr>tokens_p = [c, tok, e]\<rparr>) = mysqlConnectRequest (val_srv tok) \<and>
         fst (parseMysqlConnect S \<lparr>tokens_p = [e]\<rparr>) =
           errorRequest (''expected connection address, but got: '' @ S (Base tokenTypeEOF)) \<and>
         fst (parseSqlMysql S \<lparr>tokens_p = [c, e]\<rparr>) =
           errorRequest (''expected connection address, but got: '' @ S (Base tokenTypeEOF))"
  using assms
  by (simp add: parseSqlMysql_def parseMysqlConnect_def parseConnectionAddress_def
      parseEOF_def parseError_def Produce_def)

theorem parseMysqlConnect_address_witness:
  "fst (parseSqlMysql (\<lambda>k. ''tokenTypeEOF'')
         \<lparr>tokens_p = [\<lparr>typ_srv = tokenTypeSqlConnect, val_srv = ''connect''\<rparr>,
                      \<lparr>typ_srv = Base tokenTypeSqlValue, val_srv = ''1.2.3.4:3306''\<rparr>,
                      \<lparr>typ_srv = Base tokenTypeEOF, val_srv = []\<rparr>]\<rparr>)
     = mysqlConnectRequest ''1.2.3.4:3306'' \<and>
   fst (parseSqlMysql (\<lambda>k. ''tokenTypeEOF'')
         \<lparr>tokens_p = [\<lparr>typ_srv = tokenTypeSqlConnect, val_srv = ''connect''\<rparr>,
                      \<lparr>typ_srv = Base tokenTypeEOF, val_srv = []\<rparr>]\<rparr>)
     = errorRequest ''expected connection address, but got: tokenTypeEOF''"
  using parseMysqlConnect_address
    [of "\<lparr>typ_srv = tokenTypeSqlConnect, val_srv = ''connect''\<rparr>"
        "\<lparr>typ_srv = Base tokenTypeSqlValue, val_srv = ''1.2.3.4:3306''\<rparr>"
        "\<lparr>typ_srv = Base tokenTypeEOF, val_srv = []\<rparr>" "\<lambda>k. ''tokenTypeEOF''"]
  by simp

section \<open>Properties of the client\<close>

text \<open>
  C10. The request is written, the read fails: \<open>read\<close> returns a nil header, and
  \<open>Execute\<close> reads \<open>header.RequestId\<close> before it looks at the flag, so the call
  faults instead of returning false.
\<close>

theorem Execute_read_failure_faults:
  "Execute ''status''
     \<lparr>rw = \<lparr>Valid = True, WriteHeaderAndMessage = None,
             ReadMessage = (None, [], Some ''connection reset'')\<rparr>,
      requestId = 0, errorString = [], rawjson = []\<rparr>
   = Inl NilPointerDereference"
  by (simp add: Execute_def client_write_def client_read_def resetError_def reset_def
      setError_def Let_def)

text \<open>The same for every client whose write succeeds and whose read reports an error.\<close>

lemma Execute_faults_when_read_fails:
  assumes "Valid (rw this)" and "WriteHeaderAndMessage (rw this) = None"
    and "ReadMessage (rw this) = (header, bytes, Some err)"
  shows "Execute command this = Inl NilPointerDereference"
  using assms
  by (simp add: Execute_def client_write_def client_read_def resetError_def reset_def
      setError_def Let_def)

end
